theory Spec2Isabelle
  imports Main
begin

section \<open>Leader election on a transactional key-value store (src/election.ts)\<close>

text \<open>
  The class \<open>Election\<close> of \<open>election.ts\<close> is embedded as functions over an explicit
  election state and an explicit session state. Promise chains become steps of a small
  machine: the callback of a store call runs in the step in which the store serves the
  call, and between two steps other clients may change the store.
\<close>

subsection \<open>Values of the host language\<close>

text \<open>
  The fields \<open>leaderKey\<close>, \<open>leaderRevision\<close> and \<open>leaderLeaseId\<close> are declared without
  an initial value, so they are \<open>undefined\<close> until a campaign assigns them, and
  \<open>leaderLeaseId\<close> is assigned \<open>null\<close> by \<open>resign\<close>.
\<close>

datatype 'a js = Undefined | Null | Val 'a

text \<open>
  A lease identifier is handed out by the lease collaborator as the decimal numeral of an
  integer; \<open>new BigNumber(leaseId)\<close> reads it back as that integer. The model carries the
  integer. Such a numeral is never the empty string, so as a condition (\<open>! leaseId\<close>) a
  present lease identifier is truthy, \<open>undefined\<close> and \<open>null\<close> are falsy.
\<close>

fun truthy :: "int js \<Rightarrow> bool" where
  "truthy Undefined = False"
| "truthy Null = False"
| "truthy (Val l) = True"

datatype error = EtcdElectionNoLeaderError | EtcdElectionNotLeaderError | TypeError

text \<open>
  How a public operation ends: it throws before any promise exists, returns
  \<open>undefined\<close> at once, or returns a promise that is resolved or rejected.
\<close>

datatype 'a outcome = Thrown error | Returned | Resolved 'a | Rejected error

subsection \<open>The election object\<close>

text \<open>
  The fields of the class, and in \<open>emitted\<close> the notifications it has sent with
  \<open>emit\<close>, oldest first. The field \<open>header\<close> is declared and never assigned, and the
  lines written with \<open>console.log\<close> change nothing; both are left out.
\<close>

record election =
  keyPrefix :: string
  timeout :: int
  leaderKey :: "string js"
  leaderRevision :: "int js"
  leaderLeaseId :: "int js"
  emitted :: "string list"

text \<open>The constructor: the three leader fields stay unassigned; \<open>timeout\<close> defaults to 5.\<close>

definition Election :: "string \<Rightarrow> int option \<Rightarrow> election" where
  "Election prefix timeout_arg =
     \<lparr> keyPrefix = prefix,
       timeout = (case timeout_arg of None \<Rightarrow> 5 | Some t \<Rightarrow> t),
       leaderKey = Undefined, leaderRevision = Undefined, leaderLeaseId = Undefined,
       emitted = [] \<rparr>"

definition emit :: "string \<Rightarrow> election \<Rightarrow> election" where
  "emit ev e = e\<lparr>emitted := emitted e @ [ev]\<rparr>"

subsection \<open>Keys\<close>

text \<open>
  \<open>BigNumber.toString(16)\<close> of an integer: lowercase digits, no padding, a leading minus
  sign for a negative number.
\<close>

definition hexdigit :: "nat \<Rightarrow> char" where
  "hexdigit d = ''0123456789abcdef'' ! d"

fun hex_of_nat :: "nat \<Rightarrow> string" where
  "hex_of_nat n = (if n < 16 then [hexdigit n] else hex_of_nat (n div 16) @ [hexdigit (n mod 16)])"

declare hex_of_nat.simps [simp del]

definition toString16 :: "int \<Rightarrow> string" where
  "toString16 i = (if i < 0 then CHR ''-'' # hex_of_nat (nat (- i)) else hex_of_nat (nat i))"

definition getPrefix :: "election \<Rightarrow> string" where
  "getPrefix e = ''election'' @ ''/'' @ keyPrefix e @ ''/''"

definition getKey :: "election \<Rightarrow> int \<Rightarrow> string" where
  "getKey e leaseId = getPrefix e @ toString16 leaseId"

text \<open>Reading a hexadecimal numeral back, for the round trip of the key's last segment.\<close>

definition hexval :: "char \<Rightarrow> nat" where
  "hexval c = (let n = (of_char c :: nat) in if 48 \<le> n \<and> n \<le> 57 then n - 48 else n - 87)"

definition parse_hex :: "string \<Rightarrow> int" where
  "parse_hex s = int (foldl (\<lambda>a c. 16 * a + hexval c) 0 s)"

definition hex_segment :: "election \<Rightarrow> string \<Rightarrow> string" where
  "hex_segment e k = drop (length (getPrefix e)) k"

subsection \<open>The store behind the session\<close>

text \<open>
  Modelled from the spec: the session \<open>Namespace\<close> (\<open>./namespace\<close>), its transaction,
  range, watch and lease builders and the store they talk to are not in
  \<open>election.ts\<close>. The definitions of this subsection follow the spec's description of
  that collaborator: a key-value store with a revision counter that every committed
  change advances, keys that carry the revision of their creation (untouched by a later
  update of the value) and the lease they are bound to, conditional commits that run one
  of two branches, range queries filtered and sorted by creation revision whose header
  carries the revision at which the answer was observed, and watches that deliver the
  delete events of a key from a start revision on.
\<close>

record kv =
  kv_key :: string
  kv_value :: string
  create_revision :: int
  kv_lease :: "int option"

record header =
  revision :: int

datatype event_type = EvPut | EvDelete

record event =
  ev_type :: event_type
  ev_key :: string
  ev_revision :: int

record store =
  store_revision :: int
  store_kvs :: "kv list"
  store_events :: "event list"

datatype op = OpPut string string "int option" | OpGet string | OpDelete string

datatype target = Create

datatype comparator = Equal

record compare =
  cmp_key :: string
  cmp_target :: target
  cmp_op :: comparator
  cmp_value :: int

record txn =
  condition :: compare
  success :: "op list"
  failure :: "op list"

datatype sort_order = Ascend | Descend

record range_request =
  rq_prefix :: string
  rq_maxCreateRevision :: "int option"
  rq_sort_target :: target
  rq_sort_order :: sort_order

record response =
  header :: header

record txn_response = response +
  succeeded :: bool

record range_response = response +
  kvs :: "kv list"

definition has_key :: "store \<Rightarrow> string \<Rightarrow> bool" where
  "has_key st k = list_ex (\<lambda>x. kv_key x = k) (store_kvs st)"

text \<open>The creation revision of a key; 0 stands for a key that is absent.\<close>

definition current_create_revision :: "store \<Rightarrow> string \<Rightarrow> int" where
  "current_create_revision st k =
     (case find (\<lambda>x. kv_key x = k) (store_kvs st) of
        None \<Rightarrow> 0
      | Some x \<Rightarrow> create_revision x)"

fun writes :: "store \<Rightarrow> op \<Rightarrow> bool" where
  "writes st (OpPut k v l) = True"
| "writes st (OpGet k) = False"
| "writes st (OpDelete k) = has_key st k"

text \<open>One operation of a branch, written at revision \<open>r\<close>.\<close>

fun apply_op :: "int \<Rightarrow> store \<Rightarrow> op \<Rightarrow> store" where
  "apply_op r st (OpGet k) = st"
| "apply_op r st (OpPut k v l) =
     (if has_key st k
      then st\<lparr>store_kvs :=
                 map (\<lambda>x. if kv_key x = k then x\<lparr>kv_value := v, kv_lease := l\<rparr> else x)
                   (store_kvs st),
              store_events :=
                 store_events st @ [\<lparr>ev_type = EvPut, ev_key = k, ev_revision = r\<rparr>]\<rparr>
      else st\<lparr>store_kvs :=
                 store_kvs st @
                   [\<lparr>kv_key = k, kv_value = v, create_revision = r, kv_lease = l\<rparr>],
              store_events :=
                 store_events st @ [\<lparr>ev_type = EvPut, ev_key = k, ev_revision = r\<rparr>]\<rparr>)"
| "apply_op r st (OpDelete k) =
     (if has_key st k
      then st\<lparr>store_kvs := filter (\<lambda>x. kv_key x \<noteq> k) (store_kvs st),
              store_events :=
                 store_events st @ [\<lparr>ev_type = EvDelete, ev_key = k, ev_revision = r\<rparr>]\<rparr>
      else st)"

text \<open>
  Modelled from the spec: how the store commits a branch. A batch of operations is one
  committed change: it takes the next revision when it writes, and leaves the store and
  its revision alone when it only reads (a revision is assigned to every committed
  change).
\<close>

definition run_ops :: "op list \<Rightarrow> store \<Rightarrow> store" where
  "run_ops ops st =
     (if list_ex (writes st) ops
      then (foldl (apply_op (store_revision st + 1)) st ops)
             \<lparr>store_revision := store_revision st + 1\<rparr>
      else st)"

text \<open>
  Modelled from the spec: the conditional commit. The condition is evaluated against the
  current store, one of the two branches runs, and the answer carries the outcome of the
  condition and, in its header, the revision of the store after the commit.
\<close>

fun holds :: "compare \<Rightarrow> store \<Rightarrow> bool" where
  "holds c st =
     (case (cmp_target c, cmp_op c) of
        (Create, Equal) \<Rightarrow> current_create_revision st (cmp_key c) = cmp_value c)"

definition commit :: "txn \<Rightarrow> store \<Rightarrow> txn_response \<times> store" where
  "commit t st =
     (let ok = holds (condition t) st;
          st' = run_ops (if ok then success t else failure t) st
      in (\<lparr>header = \<lparr>revision = store_revision st'\<rparr>, succeeded = ok\<rparr>, st'))"

text \<open>
  Modelled from the spec: the range query. The keys under the prefix, up to the creation
  revision asked for if one is given, sorted by creation revision; the header carries the
  revision of the store at which the answer was observed.
\<close>

definition has_prefix :: "string \<Rightarrow> string \<Rightarrow> bool" where
  "has_prefix p k = (take (length p) k = p)"

definition in_range :: "range_request \<Rightarrow> kv \<Rightarrow> bool" where
  "in_range rq x =
     (has_prefix (rq_prefix rq) (kv_key x) \<and>
      (case rq_maxCreateRevision rq of None \<Rightarrow> True | Some m \<Rightarrow> create_revision x \<le> m))"

definition range_query :: "range_request \<Rightarrow> store \<Rightarrow> range_response" where
  "range_query rq st =
     \<lparr>header = \<lparr>revision = store_revision st\<rparr>,
      kvs = (case (rq_sort_target rq, rq_sort_order rq) of
               (Create, Ascend) \<Rightarrow> sort_key create_revision (filter (in_range rq) (store_kvs st))
             | (Create, Descend) \<Rightarrow>
                 sort_key (\<lambda>x. - create_revision x) (filter (in_range rq) (store_kvs st)))\<rparr>"

text \<open>
  Modelled from the spec: the watch. A watch on key \<open>k\<close> from revision \<open>r\<close> has
  delivered a delete event once the store's history holds a deletion of \<open>k\<close> at a
  revision from \<open>r\<close> on.
\<close>

definition delete_observed :: "string \<Rightarrow> int \<Rightarrow> store \<Rightarrow> bool" where
  "delete_observed k r st =
     list_ex (\<lambda>ev. ev_type ev = EvDelete \<and> ev_key ev = k \<and> r \<le> ev_revision ev)
       (store_events st)"

text \<open>
  Modelled from the spec: what other clients and the lease collaborator do to the store
  between two steps: a put, a delete, and the removal of the keys of a lease that
  expires or is revoked.
\<close>

datatype env_op = EnvPut string string "int option" | EnvDelete string | EnvRevoke int

fun env_apply :: "env_op \<Rightarrow> store \<Rightarrow> store" where
  "env_apply (EnvPut k v l) st = run_ops [OpPut k v l] st"
| "env_apply (EnvDelete k) st = run_ops [OpDelete k] st"
| "env_apply (EnvRevoke l) st =
     run_ops (map (\<lambda>x. OpDelete (kv_key x)) (filter (\<lambda>x. kv_lease x = Some l) (store_kvs st))) st"

text \<open>
  Modelled from the spec: the session. It holds the store, the watch subscriptions that
  are open (one is closed only by an explicit release) and, to tell what an operation
  has asked of the store, the requests this client has sent, in order.
\<close>

datatype request =
  ReqLease int | ReqTxn txn | ReqRange range_request | ReqWatch string int

record session =
  store :: store
  watchers :: "(string \<times> int) list"
  requests :: "request list"

definition session_commit :: "txn \<Rightarrow> session \<Rightarrow> txn_response \<times> session" where
  "session_commit t s =
     (let (res, st') = commit t (store s)
      in (res, s\<lparr>store := st', requests := requests s @ [ReqTxn t]\<rparr>))"

definition session_range :: "range_request \<Rightarrow> session \<Rightarrow> range_response \<times> session" where
  "session_range rq s =
     (range_query rq (store s), s\<lparr>requests := requests s @ [ReqRange rq]\<rparr>)"

definition session_watch :: "string \<Rightarrow> int \<Rightarrow> session \<Rightarrow> session" where
  "session_watch k r s =
     s\<lparr>watchers := watchers s @ [(k, r)], requests := requests s @ [ReqWatch k r]\<rparr>"

definition session_lease :: "int \<Rightarrow> session \<Rightarrow> session" where
  "session_lease ttl s = s\<lparr>requests := requests s @ [ReqLease ttl]\<rparr>"

definition session_env :: "env_op \<Rightarrow> session \<Rightarrow> session" where
  "session_env a s = s\<lparr>store := env_apply a (store s)\<rparr>"

subsection \<open>Waiting for the deletion of previous keys\<close>

text \<open>
  \<open>waitDelete(key, revision)\<close> opens a watch on the key from the revision; its promise is
  resolved by the watch's first delete event. The source keeps the watcher it gets and
  never cancels it.
\<close>

definition waitDelete :: "string \<Rightarrow> int \<Rightarrow> session \<Rightarrow> session" where
  "waitDelete k r s = session_watch k r s"

text \<open>
  \<open>waitDeletes(maxCreateRevision)\<close> is a recursive promise chain. A call is in one of
  three states: its range query is on its way (\<open>WQuery\<close>), it waits on the watch of the
  first row (\<open>WWatch\<close>), or it has returned a header (\<open>WDone\<close>). \<open>waitDeletes_step\<close>
  runs the callback that is due, if it can run.
\<close>

datatype wait_state = WQuery | WWatch string int | WDone header

definition waitDeletes_query :: "election \<Rightarrow> int \<Rightarrow> range_request" where
  "waitDeletes_query e maxCreateRevision =
     \<lparr>rq_prefix = getPrefix e, rq_maxCreateRevision = Some maxCreateRevision,
      rq_sort_target = Create, rq_sort_order = Ascend\<rparr>"

fun waitDeletes_step :: "election \<Rightarrow> int \<Rightarrow> wait_state \<Rightarrow> session \<Rightarrow> wait_state \<times> session" where
  "waitDeletes_step e maxCreateRevision WQuery s =
     (let (res, s1) = session_range (waitDeletes_query e maxCreateRevision) s
      in case kvs res of
           [] \<Rightarrow> (WDone (header res), s1)
         | x # _ \<Rightarrow>
             (WWatch (kv_key x) (revision (header res)),
              waitDelete (kv_key x) (revision (header res)) s1))"
| "waitDeletes_step e maxCreateRevision (WWatch lastKey r) s =
     (if delete_observed lastKey r (store s) then (WQuery, s) else (WWatch lastKey r, s))"
| "waitDeletes_step e maxCreateRevision (WDone h) s = (WDone h, s)"

text \<open>A call of \<open>waitDeletes\<close> under a schedule: the store moves, or the call's callback runs.\<close>

datatype wait_action = WEnv env_op | WRun

fun wait_act :: "election \<Rightarrow> int \<Rightarrow> wait_action \<Rightarrow> wait_state \<times> session \<Rightarrow> wait_state \<times> session" where
  "wait_act e b (WEnv a) (ws, s) = (ws, session_env a s)"
| "wait_act e b WRun (ws, s) = waitDeletes_step e b ws s"

fun waitDeletes :: "election \<Rightarrow> int \<Rightarrow> wait_action list \<Rightarrow> wait_state \<times> session \<Rightarrow> wait_state \<times> session" where
  "waitDeletes e b [] c = c"
| "waitDeletes e b (a # as) c = waitDeletes e b as (wait_act e b a c)"

subsection \<open>campaign\<close>

definition campaign_txn :: "string \<Rightarrow> string \<Rightarrow> int \<Rightarrow> txn" where
  "campaign_txn k v leaseId =
     \<lparr>condition = \<lparr>cmp_key = k, cmp_target = Create, cmp_op = Equal, cmp_value = 0\<rparr>,
      success = [OpPut k v (Some leaseId)],
      failure = [OpGet k]\<rparr>"

text \<open>
  A call of \<open>campaign(value)\<close>: it waits for the lease (\<open>TGrant\<close>), has sent its
  transaction (\<open>TCommit\<close>), is inside \<open>waitDeletes\<close> (\<open>TWait\<close>), or is over.
\<close>

datatype task =
  TGrant string | TCommit string string int | TWait int wait_state | TFinished

text \<open>The synchronous part: ask the session for a lease and return.\<close>

definition campaign :: "string \<Rightarrow> election \<Rightarrow> session \<Rightarrow> task \<times> session" where
  "campaign v e s = (TGrant v, session_lease (timeout e) s)"

text \<open>The callback of \<open>lease.grant()\<close>: name the key and send the transaction.\<close>

fun campaign_granted :: "election \<Rightarrow> int \<Rightarrow> task \<Rightarrow> task" where
  "campaign_granted e leaseId (TGrant v) = TCommit (getKey e leaseId) v leaseId"
| "campaign_granted e leaseId t = t"

fun campaign_step :: "task \<Rightarrow> election \<Rightarrow> session \<Rightarrow> task \<times> election \<times> session" where
  "campaign_step (TGrant v) e s = (TGrant v, e, s)"
| "campaign_step (TCommit k v leaseId) e s =
     (let (res, s1) = session_commit (campaign_txn k v leaseId) s;
          e1 = e\<lparr>leaderKey := Val k,
                 leaderRevision := Val (revision (header res)),
                 leaderLeaseId := Val leaseId\<rparr>
      in (TWait (revision (header res) - 1) WQuery, e1, s1))"
| "campaign_step (TWait b ws) e s =
     (let (ws1, s1) = waitDeletes_step e b ws s
      in case ws1 of
           WDone h \<Rightarrow> (TFinished, if leaderKey e \<noteq> Val [] then emit ''elected'' e else e, s1)
         | _ \<Rightarrow> (TWait b ws1, e, s1))"
| "campaign_step TFinished e s = (TFinished, e, s)"

subsection \<open>proclaim, resign, leader\<close>

definition proclaim_txn :: "string \<Rightarrow> int \<Rightarrow> string \<Rightarrow> int \<Rightarrow> txn" where
  "proclaim_txn k r v leaseId =
     \<lparr>condition = \<lparr>cmp_key = k, cmp_target = Create, cmp_op = Equal, cmp_value = r\<rparr>,
      success = [OpPut k v (Some leaseId)],
      failure = []\<rparr>"

text \<open>
  Reading \<open>this.leaderRevision.toString()\<close> of an unassigned field is a \<open>TypeError\<close>,
  and so is building a condition on an unassigned key.
\<close>

definition proclaim :: "string \<Rightarrow> election \<Rightarrow> session \<Rightarrow> unit outcome \<times> election \<times> session" where
  "proclaim v e s =
     (if \<not> truthy (leaderLeaseId e) then (Thrown EtcdElectionNotLeaderError, e, s)
      else case (leaderKey e, leaderRevision e, leaderLeaseId e) of
             (Val k, Val r, Val l) \<Rightarrow>
               (let (res, s1) = session_commit (proclaim_txn k r v l) s
                in if \<not> succeeded res
                   then (Rejected EtcdElectionNotLeaderError, e\<lparr>leaderKey := Val []\<rparr>, s1)
                   else (Resolved (), e, s1))
           | _ \<Rightarrow> (Thrown TypeError, e, s))"

definition resign_txn :: "string \<Rightarrow> int \<Rightarrow> txn" where
  "resign_txn k r =
     \<lparr>condition = \<lparr>cmp_key = k, cmp_target = Create, cmp_op = Equal, cmp_value = r\<rparr>,
      success = [OpDelete k],
      failure = []\<rparr>"

definition resign :: "election \<Rightarrow> session \<Rightarrow> unit outcome \<times> election \<times> session" where
  "resign e s =
     (if \<not> truthy (leaderLeaseId e) then (Returned, e, s)
      else case (leaderKey e, leaderRevision e) of
             (Val k, Val r) \<Rightarrow>
               (let (res, s1) = session_commit (resign_txn k r) s
                in (Resolved (),
                    (emit ''resigned'' e)\<lparr>leaderKey := Val [], leaderLeaseId := Null\<rparr>,
                    s1))
           | _ \<Rightarrow> (Thrown TypeError, e, s))"

definition leader_query :: "election \<Rightarrow> range_request" where
  "leader_query e =
     \<lparr>rq_prefix = getPrefix e, rq_maxCreateRevision = None,
      rq_sort_target = Create, rq_sort_order = Descend\<rparr>"

definition leader :: "election \<Rightarrow> session \<Rightarrow> string outcome \<times> election \<times> session" where
  "leader e s =
     (let (res, s1) = session_range (leader_query e) s
      in case kvs res of
           [] \<Rightarrow> (Rejected EtcdElectionNoLeaderError, e, s1)
         | x # _ \<Rightarrow> (Resolved (kv_value x), e, s1))"

subsection \<open>One election object under a schedule\<close>

text \<open>
  The caller's operations, the lease collaborator's answers, the callbacks of the
  campaigns in flight and the other clients' writes, interleaved in any order.
\<close>

record world =
  el :: election
  sess :: session
  tasks :: "task list"

datatype action =
  Env env_op | Campaign string | Granted nat int | Run nat
  | Proclaim string | Resign | Leader

fun step :: "action \<Rightarrow> world \<Rightarrow> world" where
  "step (Env a) w = w\<lparr>sess := session_env a (sess w)\<rparr>"
| "step (Campaign v) w =
     (let (t, s1) = campaign v (el w) (sess w)
      in w\<lparr>sess := s1, tasks := tasks w @ [t]\<rparr>)"
| "step (Granted i leaseId) w =
     (if i < length (tasks w)
      then w\<lparr>tasks := (tasks w)[i := campaign_granted (el w) leaseId (tasks w ! i)]\<rparr>
      else w)"
| "step (Run i) w =
     (if i < length (tasks w)
      then (let (t, e1, s1) = campaign_step (tasks w ! i) (el w) (sess w)
            in w\<lparr>el := e1, sess := s1, tasks := (tasks w)[i := t]\<rparr>)
      else w)"
| "step (Proclaim v) w =
     (let (out, e1, s1) = proclaim v (el w) (sess w) in w\<lparr>el := e1, sess := s1\<rparr>)"
| "step Resign w =
     (let (out, e1, s1) = resign (el w) (sess w) in w\<lparr>el := e1, sess := s1\<rparr>)"
| "step Leader w =
     (let (out, e1, s1) = leader (el w) (sess w) in w\<lparr>el := e1, sess := s1\<rparr>)"

fun exec :: "action list \<Rightarrow> world \<Rightarrow> world" where
  "exec [] w = w"
| "exec (a # as) w = exec as (step a w)"

definition new_world :: "string \<Rightarrow> int option \<Rightarrow> session \<Rightarrow> world" where
  "new_world prefix timeout_arg s = \<lparr>el = Election prefix timeout_arg, sess = s, tasks = []\<rparr>"

definition empty_session :: session where
  "empty_session =
     \<lparr>store = \<lparr>store_revision = 1, store_kvs = [], store_events = []\<rparr>,
      watchers = [], requests = []\<rparr>"

subsection \<open>Predicates of the properties\<close>

text \<open>A field of the leader triple is present when it holds a value; a key, when non-empty.\<close>

definition key_set :: "election \<Rightarrow> bool" where
  "key_set e = (case leaderKey e of Val k \<Rightarrow> k \<noteq> [] | _ \<Rightarrow> False)"

definition revision_set :: "election \<Rightarrow> bool" where
  "revision_set e = (case leaderRevision e of Val r \<Rightarrow> True | _ \<Rightarrow> False)"

definition lease_set :: "election \<Rightarrow> bool" where
  "lease_set e = truthy (leaderLeaseId e)"

definition triple_together :: "election \<Rightarrow> bool" where
  "triple_together e =
     ((key_set e \<and> revision_set e \<and> lease_set e) \<or>
      (\<not> key_set e \<and> \<not> revision_set e \<and> \<not> lease_set e))"

text \<open>
  What the operations do keep: a non-empty key comes with a lease, and a lease comes
  with a revision and an assigned (possibly empty) key.
\<close>

definition leader_inv :: "election \<Rightarrow> bool" where
  "leader_inv e =
     ((key_set e \<longrightarrow> lease_set e) \<and>
      (lease_set e \<longrightarrow> revision_set e \<and> leaderKey e \<noteq> Undefined \<and> leaderKey e \<noteq> Null))"

text \<open>The watches whose delete event has been delivered.\<close>

definition observed_all :: "store \<Rightarrow> (string \<times> int) list \<Rightarrow> bool" where
  "observed_all st ws = list_all (\<lambda>(k, r). delete_observed k r st) ws"

text \<open>
  At most the watch opened last still waits for its delete event, and only while the
  call waits on it.
\<close>

definition one_awaited :: "wait_state \<Rightarrow> session \<Rightarrow> bool" where
  "one_awaited ws s =
     (case ws of
        WWatch k r \<Rightarrow>
          watchers s \<noteq> [] \<and> last (watchers s) = (k, r) \<and>
          observed_all (store s) (butlast (watchers s))
      | _ \<Rightarrow> observed_all (store s) (watchers s))"




text \<open>
  A store in which every key was created at a positive revision that the counter has
  reached. Every operation on the store keeps it so (\<open>wf_store_run_ops\<close> below).
\<close>

definition wf_store :: "store \<Rightarrow> bool" where
  "wf_store st =
     (0 \<le> store_revision st \<and>
      list_all (\<lambda>x. 0 < create_revision x \<and> create_revision x \<le> store_revision st)
        (store_kvs st))"

subsection \<open>A queue of three candidates\<close>

text \<open>
  The election \<open>svc\<close> with three campaign keys, created at revisions 2, 3 and 4 under the
  leases 1, 2 and 3; the candidate of lease 3 waits with the bound 3.
\<close>

definition svc :: election where
  "svc = Election ''svc'' None"

definition queue_store :: store where
  "queue_store =
     \<lparr>store_revision = 4,
      store_kvs =
        [\<lparr>kv_key = ''election/svc/1'', kv_value = ''x'', create_revision = 2, kv_lease = Some 1\<rparr>,
         \<lparr>kv_key = ''election/svc/2'', kv_value = ''y'', create_revision = 3, kv_lease = Some 2\<rparr>,
         \<lparr>kv_key = ''election/svc/3'', kv_value = ''z'', create_revision = 4, kv_lease = Some 3\<rparr>],
      store_events = []\<rparr>"

definition queue_session :: session where
  "queue_session = \<lparr>store = queue_store, watchers = [], requests = []\<rparr>"

definition one_at_a_time :: "wait_action list" where
  "one_at_a_time =
     [WRun, WEnv (EnvDelete ''election/svc/1''), WRun,
      WRun, WEnv (EnvDelete ''election/svc/2''), WRun,
      WRun]"

text \<open>
  The candidate of lease 3 as its campaign leaves it, and the same candidate with a
  recorded revision that is not the creation revision of its key.
\<close>

definition candidate3 :: election where
  "candidate3 =
     svc\<lparr>leaderKey := Val ''election/svc/3'', leaderRevision := Val 4, leaderLeaseId := Val 3\<rparr>"

definition stale3 :: election where
  "stale3 =
     svc\<lparr>leaderKey := Val ''election/svc/3'', leaderRevision := Val 5, leaderLeaseId := Val 3\<rparr>"

text \<open>The queue after another client has written a key of its own.\<close>

definition later_session :: session where
  "later_session = session_env (EnvPut ''election/svc/9'' ''q'' None) queue_session"

section \<open>Properties\<close>

subsection \<open>The key of a lease\<close>

lemma hexval_hexdigit_all: "list_all (\<lambda>d. hexval (hexdigit d) = d) [0..<16]"
  by code_simp

lemma hexval_hexdigit: "d < 16 \<Longrightarrow> hexval (hexdigit d) = d"
  using hexval_hexdigit_all by (simp add: list_all_iff)

lemma foldl_hex_of_nat:
  "foldl (\<lambda>a c. 16 * a + hexval c) 0 (hex_of_nat n) = n"
proof (induction n rule: hex_of_nat.induct)
  case (1 n)
  show ?case
  proof (cases "n < 16")
    case True
    then show ?thesis by (simp add: hex_of_nat.simps [of n] hexval_hexdigit)
  next
    case False
    with 1 show ?thesis
      by (simp add: hex_of_nat.simps [of n] hexval_hexdigit)
  qed
qed

lemma parse_hex_toString16: "0 \<le> i \<Longrightarrow> parse_hex (toString16 i) = i"
  by (simp add: parse_hex_def toString16_def foldl_hex_of_nat)

text \<open>
  C8. For a fixed prefix, \<open>getKey\<close> is a function of the lease identifier that maps
  different non-negative identifiers to different keys; the key is \<open>election/\<close>, the
  prefix, \<open>/\<close> and the unpadded lowercase hexadecimal numeral of the identifier; and
  the part of the key after the prefix reads back as the identifier.
\<close>

theorem getKey_injective_roundtrip:
  assumes "0 \<le> a" and "0 \<le> b"
  shows "(getKey e a = getKey e b \<longleftrightarrow> a = b) \<and>
         getKey e a = ''election/'' @ keyPrefix e @ ''/'' @ toString16 a \<and>
         parse_hex (hex_segment e (getKey e a)) = a"
proof -
  have "a = b" if eq: "toString16 a = toString16 b"
  proof -
    have "a = parse_hex (toString16 a)"
      by (simp only: parse_hex_toString16 [OF assms(1)])
    also have "\<dots> = parse_hex (toString16 b)"
      by (simp only: eq)
    also have "\<dots> = b"
      by (simp only: parse_hex_toString16 [OF assms(2)])
    finally show ?thesis .
  qed
  then have inj: "getKey e a = getKey e b \<longleftrightarrow> a = b"
    unfolding getKey_def by auto
  have form: "getKey e a = ''election/'' @ keyPrefix e @ ''/'' @ toString16 a"
    unfolding getKey_def getPrefix_def by simp
  have rt: "parse_hex (hex_segment e (getKey e a)) = a"
    unfolding hex_segment_def getKey_def by (simp add: parse_hex_toString16 assms(1))
  show ?thesis by (rule conjI [OF inj conjI [OF form rt]])
qed

theorem getKey_injective_roundtrip_witness:
  "getKey svc 255 \<noteq> getKey svc 4095 \<and>
   getKey svc 255 = ''election/svc/ff'' \<and>
   parse_hex (hex_segment svc (getKey svc 255)) = 255"
proof -
  have t: "(getKey svc 255 = getKey svc 4095 \<longleftrightarrow> (255::int) = 4095) \<and>
      getKey svc 255 = ''election/'' @ keyPrefix svc @ ''/'' @ toString16 255 \<and>
      parse_hex (hex_segment svc (getKey svc 255)) = 255"
    by (rule getKey_injective_roundtrip) simp_all
  have p: "keyPrefix svc = ''svc''" by (simp add: svc_def Election_def)
  have h: "toString16 255 = ''ff''" by code_simp
  have "getKey svc 255 \<noteq> getKey svc 4095"
    using conjunct1 [OF t] by simp
  moreover have "getKey svc 255 = ''election/svc/ff''"
    using conjunct1 [OF conjunct2 [OF t]] by (simp add: p h)
  moreover note conjunct2 [OF conjunct2 [OF t]]
  ultimately show ?thesis by (intro conjI)
qed

subsection \<open>Waiting for predecessors\<close>

lemmas queue_eval = svc_def queue_session_def queue_store_def one_at_a_time_def Election_def
  getPrefix_def waitDeletes_query_def session_range_def range_query_def in_range_def
  has_prefix_def waitDelete_def session_watch_def session_env_def run_ops_def has_key_def
  delete_observed_def

lemma waitDeletes_done_stable: "fst (waitDeletes e b as (WDone h, s)) = WDone h"
proof (induction as arbitrary: s)
  case Nil
  show ?case by simp
next
  case (Cons a as)
  show ?case by (cases a) (simp_all add: Cons.IH)
qed

lemma waitDeletes_append:
  "waitDeletes e b (xs @ ys) c = waitDeletes e b ys (waitDeletes e b xs c)"
  by (induction xs arbitrary: c) simp_all

lemma kvs_range_query_empty:
  "kvs (range_query (waitDeletes_query e b) st) = [] \<longleftrightarrow>
     (\<forall>x\<in>set (store_kvs st). has_prefix (getPrefix e) (kv_key x) \<longrightarrow> b < create_revision x)"
  by (auto simp: range_query_def waitDeletes_query_def in_range_def filter_empty_conv
      simp flip: set_empty)

lemma waitDeletes_step_done:
  assumes "waitDeletes_step e b ws s = (WDone h, s')" and "\<forall>h'. ws \<noteq> WDone h'"
  shows "ws = WQuery \<and> kvs (range_query (waitDeletes_query e b) (store s)) = [] \<and>
         h = \<lparr>revision = store_revision (store s)\<rparr> \<and> store s' = store s"
proof (cases ws)
  case WQuery
  with assms(1) show ?thesis
    by (auto simp: session_range_def range_query_def split: list.splits)
next
  case (WWatch k r)
  with assms(1) show ?thesis by (simp split: if_splits)
next
  case (WDone h')
  with assms(2) show ?thesis by simp
qed

lemma waitDeletes_resolution_point:
  assumes "waitDeletes e b as (ws, s0) = (WDone h, s)" and "\<forall>h'. ws \<noteq> WDone h'"
  shows "\<exists>pre post sm. as = pre @ WRun # post \<and>
           waitDeletes e b pre (ws, s0) = (WQuery, sm) \<and>
           kvs (range_query (waitDeletes_query e b) (store sm)) = [] \<and>
           h = \<lparr>revision = store_revision (store sm)\<rparr>"
  using assms
proof (induction as arbitrary: ws s0)
  case Nil
  then show ?case by simp
next
  case (Cons a as)
  obtain ws1 s1 where c1: "wait_act e b a (ws, s0) = (ws1, s1)"
    by (cases "wait_act e b a (ws, s0)")
  show ?case
  proof (cases "\<exists>h1. ws1 = WDone h1")
    case True
    then obtain h1 where h1: "ws1 = WDone h1" by blast
    have run: "a = WRun"
      using c1 h1 Cons.prems(2) by (cases a) auto
    with c1 h1 have stp: "waitDeletes_step e b ws s0 = (WDone h1, s1)" by simp
    from waitDeletes_step_done [OF stp Cons.prems(2)]
    have q: "ws = WQuery" "kvs (range_query (waitDeletes_query e b) (store s0)) = []"
      "h1 = \<lparr>revision = store_revision (store s0)\<rparr>" by simp_all
    have "fst (waitDeletes e b as (WDone h1, s1)) = WDone h1"
      by (rule waitDeletes_done_stable)
    with Cons.prems(1) c1 h1 have "h = h1" by simp
    with q run show ?thesis
      by (intro exI [of _ "[]"] exI [of _ as] exI [of _ s0]) simp
  next
    case False
    then have nd: "\<forall>h'. ws1 \<noteq> WDone h'" by blast
    from Cons.prems(1) c1 have "waitDeletes e b as (ws1, s1) = (WDone h, s)" by simp
    from Cons.IH [OF this nd] obtain pre post sm where
      p: "as = pre @ WRun # post" "waitDeletes e b pre (ws1, s1) = (WQuery, sm)"
         "kvs (range_query (waitDeletes_query e b) (store sm)) = []"
         "h = \<lparr>revision = store_revision (store sm)\<rparr>" by blast
    then show ?thesis using c1
      by (intro exI [of _ "a # pre"] exI [of _ post] exI [of _ sm]) simp
  qed
qed

lemma waitDeletes_blocked:
  assumes run: "waitDeletes e b pre (WQuery, s0) = (ws, sm)"
    and open_call: "\<forall>h'. ws \<noteq> WDone h'"
    and older: "\<exists>x\<in>set (store_kvs (store sm)).
                  has_prefix (getPrefix e) (kv_key x) \<and> create_revision x \<le> b"
  shows "\<forall>h'. fst (waitDeletes e b (pre @ [a]) (WQuery, s0)) \<noteq> WDone h'"
proof
  fix h'
  show "fst (waitDeletes e b (pre @ [a]) (WQuery, s0)) \<noteq> WDone h'"
  proof
    assume d: "fst (waitDeletes e b (pre @ [a]) (WQuery, s0)) = WDone h'"
    then have d': "fst (wait_act e b a (ws, sm)) = WDone h'"
      by (simp add: waitDeletes_append run)
    have "a = WRun" using d' open_call by (cases a) auto
    with d' obtain s' where "waitDeletes_step e b ws sm = (WDone h', s')"
      by (cases "waitDeletes_step e b ws sm") simp
    from waitDeletes_step_done [OF this open_call]
    have "kvs (range_query (waitDeletes_query e b) (store sm)) = []" by simp
    with older show False by (auto simp: kvs_range_query_empty)
  qed
qed

text \<open>
  C1. A call of \<open>waitDeletes\<close> with the bound \<open>b\<close> that has returned the header \<open>h\<close>
  under a schedule returned it in one step of that schedule, the callback of a range
  query: at that step no key under the election prefix had a creation revision up to
  \<open>b\<close>, the query's answer was empty and \<open>h\<close> was its header. And a call that has not
  returned does not return in a step at which the store holds a key under the prefix
  with a creation revision up to \<open>b\<close>, whatever was deleted before.
\<close>

theorem waitDeletes_resolves_only_when_no_older:
  "(waitDeletes e b as (WQuery, s0) = (WDone h, s) \<longrightarrow>
      (\<exists>pre post sm.
         as = pre @ WRun # post \<and>
         waitDeletes e b pre (WQuery, s0) = (WQuery, sm) \<and>
         (\<forall>x\<in>set (store_kvs (store sm)).
            has_prefix (getPrefix e) (kv_key x) \<longrightarrow> b < create_revision x) \<and>
         range_query (waitDeletes_query e b) (store sm) = \<lparr>header = h, kvs = []\<rparr> \<and>
         fst (waitDeletes e b (pre @ [WRun]) (WQuery, s0)) = WDone h)) \<and>
   (waitDeletes e b pre' (WQuery, s0) = (ws, sm') \<and> (\<forall>h'. ws \<noteq> WDone h') \<and>
    (\<exists>x\<in>set (store_kvs (store sm')).
       has_prefix (getPrefix e) (kv_key x) \<and> create_revision x \<le> b) \<longrightarrow>
      (\<forall>h'. fst (waitDeletes e b (pre' @ [a]) (WQuery, s0)) \<noteq> WDone h'))"
proof (intro conjI impI)
  assume r: "waitDeletes e b as (WQuery, s0) = (WDone h, s)"
  from waitDeletes_resolution_point [OF r] obtain pre post sm where
    p: "as = pre @ WRun # post" "waitDeletes e b pre (WQuery, s0) = (WQuery, sm)"
       "kvs (range_query (waitDeletes_query e b) (store sm)) = []"
       "h = \<lparr>revision = store_revision (store sm)\<rparr>" by auto
  have none: "\<forall>x\<in>set (store_kvs (store sm)).
      has_prefix (getPrefix e) (kv_key x) \<longrightarrow> b < create_revision x"
    using p(3) by (simp only: kvs_range_query_empty)
  have ans: "range_query (waitDeletes_query e b) (store sm) = \<lparr>header = h, kvs = []\<rparr>"
    using p(3,4) by (simp add: range_query_def)
  have "fst (waitDeletes e b (pre @ [WRun]) (WQuery, s0)) = WDone h"
    using p(2,3,4) by (simp add: waitDeletes_append session_range_def range_query_def)
  with p(1,2) none ans
  show "\<exists>pre post sm.
         as = pre @ WRun # post \<and>
         waitDeletes e b pre (WQuery, s0) = (WQuery, sm) \<and>
         (\<forall>x\<in>set (store_kvs (store sm)).
            has_prefix (getPrefix e) (kv_key x) \<longrightarrow> b < create_revision x) \<and>
         range_query (waitDeletes_query e b) (store sm) = \<lparr>header = h, kvs = []\<rparr> \<and>
         fst (waitDeletes e b (pre @ [WRun]) (WQuery, s0)) = WDone h"
    by blast
next
  assume "waitDeletes e b pre' (WQuery, s0) = (ws, sm') \<and> (\<forall>h'. ws \<noteq> WDone h') \<and>
    (\<exists>x\<in>set (store_kvs (store sm')).
       has_prefix (getPrefix e) (kv_key x) \<and> create_revision x \<le> b)"
  then show "\<forall>h'. fst (waitDeletes e b (pre' @ [a]) (WQuery, s0)) \<noteq> WDone h'"
    using waitDeletes_blocked by blast
qed

theorem waitDeletes_resolves_only_when_no_older_witness:
  "(\<exists>pre post sm.
      one_at_a_time = pre @ WRun # post \<and>
      waitDeletes svc 3 pre (WQuery, queue_session) = (WQuery, sm) \<and>
      (\<forall>x\<in>set (store_kvs (store sm)).
         has_prefix (getPrefix svc) (kv_key x) \<longrightarrow> 3 < create_revision x) \<and>
      range_query (waitDeletes_query svc 3) (store sm) =
        \<lparr>header = \<lparr>revision = 6\<rparr>, kvs = []\<rparr> \<and>
      fst (waitDeletes svc 3 (pre @ [WRun]) (WQuery, queue_session)) =
        WDone \<lparr>revision = 6\<rparr>) \<and>
   (\<forall>h'. fst (waitDeletes svc 3
              ([WRun, WEnv (EnvDelete ''election/svc/1''), WRun] @ [WRun])
              (WQuery, queue_session)) \<noteq> WDone h')"
proof -
  let ?end = "waitDeletes svc 3 one_at_a_time (WQuery, queue_session)"
  let ?mid = "waitDeletes svc 3 [WRun, WEnv (EnvDelete ''election/svc/1''), WRun]
                (WQuery, queue_session)"
  have "fst ?end = WDone \<lparr>revision = 6\<rparr>"
    by (simp add: queue_eval)
  then have r: "?end = (WDone \<lparr>revision = 6\<rparr>, snd ?end)"
    by (simp add: prod_eq_iff)
  have "fst ?mid = WQuery"
    by (simp add: queue_eval)
  then have m: "?mid = (WQuery, snd ?mid)"
    by (simp add: prod_eq_iff)
  have o: "\<exists>x\<in>set (store_kvs (store (snd ?mid))).
             has_prefix (getPrefix svc) (kv_key x) \<and> create_revision x \<le> 3"
    by (simp add: queue_eval)
  have n: "\<forall>h'. WQuery \<noteq> WDone h'" by simp
  note t = waitDeletes_resolves_only_when_no_older
    [of svc 3 one_at_a_time queue_session "\<lparr>revision = 6\<rparr>" "snd ?end"
        "[WRun, WEnv (EnvDelete ''election/svc/1''), WRun]" WQuery "snd ?mid" WRun]
  from conjunct1 [OF t, THEN mp, OF r] conjunct2 [OF t, THEN mp, OF conjI [OF m conjI [OF n o]]]
  show ?thesis by (rule conjI)
qed

subsection \<open>Watch subscriptions\<close>

lemma events_apply_op: "set (store_events st) \<subseteq> set (store_events (apply_op r st x))"
  by (cases x) auto

lemma events_foldl_apply_op:
  "set (store_events st) \<subseteq> set (store_events (foldl (apply_op r) st xs))"
proof (induction xs arbitrary: st)
  case Nil
  show ?case by simp
next
  case (Cons x xs)
  have "set (store_events st) \<subseteq> set (store_events (apply_op r st x))"
    by (rule events_apply_op)
  also have "\<dots> \<subseteq> set (store_events (foldl (apply_op r) (apply_op r st x) xs))"
    by (rule Cons.IH)
  finally show ?case by simp
qed

lemma events_run_ops: "set (store_events st) \<subseteq> set (store_events (run_ops xs st))"
  using events_foldl_apply_op [of st "store_revision st + 1" xs] by (simp add: run_ops_def)

lemma events_env_apply: "set (store_events st) \<subseteq> set (store_events (env_apply a st))"
  by (cases a) (simp_all add: events_run_ops)

lemma delete_observed_env:
  "delete_observed k r st \<Longrightarrow> delete_observed k r (env_apply a st)"
  using events_env_apply [of st a] by (auto simp: delete_observed_def list_ex_iff)

lemma observed_all_env: "observed_all st ws \<Longrightarrow> observed_all (env_apply a st) ws"
  by (auto simp: observed_all_def list_all_iff intro: delete_observed_env)

lemma one_awaited_env: "one_awaited ws s \<Longrightarrow> one_awaited ws (session_env a s)"
  by (cases ws) (simp_all add: one_awaited_def session_env_def observed_all_env)

lemma one_awaited_step:
  assumes "one_awaited ws s" and "waitDeletes_step e b ws s = (ws', s')"
  shows "one_awaited ws' s'"
proof (cases ws)
  case WQuery
  with assms show ?thesis
    by (auto simp: one_awaited_def session_range_def waitDelete_def session_watch_def
        split: list.splits)
next
  case (WWatch k r)
  show ?thesis
  proof (cases "delete_observed k r (store s)")
    case True
    from assms(1) WWatch have w: "watchers s \<noteq> []" "last (watchers s) = (k, r)"
      "observed_all (store s) (butlast (watchers s))"
      by (simp_all add: one_awaited_def)
    have "observed_all (store s) (butlast (watchers s) @ [(k, r)])"
      using w(3) True by (simp add: observed_all_def)
    moreover have "butlast (watchers s) @ [(k, r)] = watchers s"
      using w(1,2) by (metis append_butlast_last_id)
    ultimately have "observed_all (store s) (watchers s)" by simp
    with assms(2) WWatch True show ?thesis by (auto simp: one_awaited_def)
  next
    case False
    with assms WWatch show ?thesis by auto
  qed
next
  case (WDone h)
  with assms show ?thesis by auto
qed

lemma watchers_step:
  "waitDeletes_step e b ws s = (ws', s') \<Longrightarrow> \<exists>new. watchers s' = watchers s @ new"
  by (cases ws)
    (auto simp: session_range_def waitDelete_def session_watch_def split: list.splits if_splits)

lemma watchers_act:
  "wait_act e b a (ws, s) = (ws', s') \<Longrightarrow> \<exists>new. watchers s' = watchers s @ new"
  by (cases a) (auto simp: session_env_def dest: watchers_step)

lemma one_awaited_act:
  "one_awaited ws s \<Longrightarrow> wait_act e b a (ws, s) = (ws', s') \<Longrightarrow> one_awaited ws' s'"
  by (cases a) (auto intro: one_awaited_env one_awaited_step)

text \<open>
  C9, as stated, fails: in the queue of three candidates, once the first predecessor is
  gone and the call waits on the second, the watch on the first predecessor has seen its
  delete event and is still open, next to the watch on the second.
\<close>

theorem watch_released_counterexample:
  "length (watchers (snd (waitDeletes svc 3 (take 4 one_at_a_time)
                            (WQuery, queue_session)))) = 2 \<and>
   delete_observed ''election/svc/1'' 4
     (store (snd (waitDeletes svc 3 (take 4 one_at_a_time) (WQuery, queue_session)))) \<and>
   (''election/svc/1'', 4) \<in>
     set (watchers (snd (waitDeletes svc 3 (take 4 one_at_a_time) (WQuery, queue_session)))) \<and>
   fst (waitDeletes svc 3 (take 4 one_at_a_time) (WQuery, queue_session)) =
     WWatch ''election/svc/2'' 5"
  by (simp add: queue_eval)

text \<open>
  C9, amended. Under every schedule a call of \<open>waitDeletes\<close> only adds to the open watch
  subscriptions and releases none, also after the delete event and after it has returned;
  and at most one open subscription, the one opened last, has not seen its delete event.
\<close>

theorem watchers_never_released:
  "waitDeletes e b as (ws, s) = (ws', s') \<Longrightarrow>
     (\<exists>new. watchers s' = watchers s @ new) \<and> (one_awaited ws s \<longrightarrow> one_awaited ws' s')"
proof (induction as arbitrary: ws s)
  case Nil
  then show ?case by simp
next
  case (Cons a as)
  obtain ws1 s1 where c1: "wait_act e b a (ws, s) = (ws1, s1)"
    by (cases "wait_act e b a (ws, s)")
  with Cons.prems have "waitDeletes e b as (ws1, s1) = (ws', s')" by simp
  from Cons.IH [OF this] obtain new where
    n: "watchers s' = watchers s1 @ new" and o: "one_awaited ws1 s1 \<longrightarrow> one_awaited ws' s'"
    by blast
  from watchers_act [OF c1] obtain new1 where "watchers s1 = watchers s @ new1" by blast
  with n have "watchers s' = watchers s @ (new1 @ new)" by simp
  moreover have "one_awaited ws s \<longrightarrow> one_awaited ws' s'"
    using o one_awaited_act [OF _ c1] by blast
  ultimately show ?case by blast
qed

theorem watchers_never_released_witness:
  "(\<exists>new. watchers (snd (waitDeletes svc 3 one_at_a_time (WQuery, queue_session))) =
            watchers queue_session @ new) \<and>
   one_awaited WQuery queue_session \<and>
   one_awaited (fst (waitDeletes svc 3 one_at_a_time (WQuery, queue_session)))
     (snd (waitDeletes svc 3 one_at_a_time (WQuery, queue_session))) \<and>
   watchers (snd (waitDeletes svc 3 one_at_a_time (WQuery, queue_session))) =
     [(''election/svc/1'', 4), (''election/svc/2'', 5)]"
proof -
  let ?end = "waitDeletes svc 3 one_at_a_time (WQuery, queue_session)"
  have r: "?end = (fst ?end, snd ?end)" by simp
  have i: "one_awaited WQuery queue_session"
    by (simp add: one_awaited_def observed_all_def queue_session_def)
  have w: "watchers (snd ?end) = [(''election/svc/1'', 4), (''election/svc/2'', 5)]"
    by (simp add: queue_eval)
  note t = watchers_never_released [OF r]
  from conjunct1 [OF t] conjunct2 [OF t, THEN mp, OF i] i w
  show ?thesis by (intro conjI)
qed

subsection \<open>proclaim\<close>

lemma run_ops_Nil: "run_ops [] st = st"
  by (simp add: run_ops_def)

text \<open>
  C4. Without a lease identifier \<open>proclaim\<close> throws \<open>NotLeader\<close> and leaves the election
  and the session, the list of requests included, as they were. With one, in a state
  that keeps \<open>leader_inv\<close>, it sends one transaction: if the creation revision of
  \<open>leaderKey\<close> is \<open>leaderRevision\<close>, put the value under the same lease; when the
  condition holds the promise is resolved and the election is unchanged, and when it
  fails the store is unchanged, \<open>leaderKey\<close> becomes the empty string and the promise
  is rejected with \<open>NotLeader\<close>.
\<close>

theorem proclaim_spec:
  "(\<not> truthy (leaderLeaseId e) \<longrightarrow>
      proclaim v e s = (Thrown EtcdElectionNotLeaderError, e, s)) \<and>
   (truthy (leaderLeaseId e) \<and> leader_inv e \<longrightarrow>
      (\<exists>k r l.
         leaderKey e = Val k \<and> leaderRevision e = Val r \<and> leaderLeaseId e = Val l \<and>
         requests (snd (snd (proclaim v e s))) =
           requests s @
             [ReqTxn \<lparr>condition =
                        \<lparr>cmp_key = k, cmp_target = Create, cmp_op = Equal, cmp_value = r\<rparr>,
                      success = [OpPut k v (Some l)], failure = []\<rparr>] \<and>
         watchers (snd (snd (proclaim v e s))) = watchers s \<and>
         (current_create_revision (store s) k = r \<longrightarrow>
            fst (proclaim v e s) = Resolved () \<and>
            fst (snd (proclaim v e s)) = e \<and>
            store (snd (snd (proclaim v e s))) = run_ops [OpPut k v (Some l)] (store s)) \<and>
         (current_create_revision (store s) k \<noteq> r \<longrightarrow>
            fst (proclaim v e s) = Rejected EtcdElectionNotLeaderError \<and>
            fst (snd (proclaim v e s)) = e\<lparr>leaderKey := Val []\<rparr> \<and>
            store (snd (snd (proclaim v e s))) = store s)))"
proof (intro conjI impI)
  assume "\<not> truthy (leaderLeaseId e)"
  then show "proclaim v e s = (Thrown EtcdElectionNotLeaderError, e, s)"
    by (simp add: proclaim_def)
next
  assume a: "truthy (leaderLeaseId e) \<and> leader_inv e"
  then obtain l where l: "leaderLeaseId e = Val l"
    by (cases "leaderLeaseId e") auto
  from a obtain r where r: "leaderRevision e = Val r"
    by (cases "leaderRevision e") (auto simp: leader_inv_def lease_set_def revision_set_def)
  from a obtain k where k: "leaderKey e = Val k"
    by (cases "leaderKey e") (auto simp: leader_inv_def lease_set_def)
  show "\<exists>k r l.
         leaderKey e = Val k \<and> leaderRevision e = Val r \<and> leaderLeaseId e = Val l \<and>
         requests (snd (snd (proclaim v e s))) =
           requests s @
             [ReqTxn \<lparr>condition =
                        \<lparr>cmp_key = k, cmp_target = Create, cmp_op = Equal, cmp_value = r\<rparr>,
                      success = [OpPut k v (Some l)], failure = []\<rparr>] \<and>
         watchers (snd (snd (proclaim v e s))) = watchers s \<and>
         (current_create_revision (store s) k = r \<longrightarrow>
            fst (proclaim v e s) = Resolved () \<and>
            fst (snd (proclaim v e s)) = e \<and>
            store (snd (snd (proclaim v e s))) = run_ops [OpPut k v (Some l)] (store s)) \<and>
         (current_create_revision (store s) k \<noteq> r \<longrightarrow>
            fst (proclaim v e s) = Rejected EtcdElectionNotLeaderError \<and>
            fst (snd (proclaim v e s)) = e\<lparr>leaderKey := Val []\<rparr> \<and>
            store (snd (snd (proclaim v e s))) = store s)"
    apply (rule exI [of _ k])
    apply (rule exI [of _ r])
    apply (rule exI [of _ l])
    using k r l
    by (simp add: proclaim_def proclaim_txn_def session_commit_def commit_def run_ops_Nil Let_def)
qed

lemmas candidate_eval = candidate3_def stale3_def svc_def Election_def queue_session_def
  queue_store_def current_create_revision_def lease_set_def key_set_def revision_set_def
  leader_inv_def

theorem proclaim_spec_witness:
  "proclaim ''v'' svc queue_session = (Thrown EtcdElectionNotLeaderError, svc, queue_session) \<and>
   fst (proclaim ''v'' candidate3 queue_session) = Resolved () \<and>
   fst (snd (proclaim ''v'' candidate3 queue_session)) = candidate3 \<and>
   store (snd (snd (proclaim ''v'' candidate3 queue_session))) =
     run_ops [OpPut ''election/svc/3'' ''v'' (Some 3)] (store queue_session) \<and>
   fst (proclaim ''v'' stale3 queue_session) = Rejected EtcdElectionNotLeaderError \<and>
   leaderKey (fst (snd (proclaim ''v'' stale3 queue_session))) = Val [] \<and>
   store (snd (snd (proclaim ''v'' stale3 queue_session))) = store queue_session"
proof -
  have a: "proclaim ''v'' svc queue_session =
      (Thrown EtcdElectionNotLeaderError, svc, queue_session)"
    using conjunct1 [OF proclaim_spec [of svc "''v''" queue_session]]
    by (simp add: svc_def Election_def)
  have "truthy (leaderLeaseId candidate3) \<and> leader_inv candidate3"
    by (simp add: candidate_eval)
  from conjunct2 [OF proclaim_spec [of candidate3 "''v''" queue_session], THEN mp, OF this]
  obtain k r l where c:
    "leaderKey candidate3 = Val k" "leaderRevision candidate3 = Val r"
    "leaderLeaseId candidate3 = Val l"
    "current_create_revision (store queue_session) k = r \<longrightarrow>
       fst (proclaim ''v'' candidate3 queue_session) = Resolved () \<and>
       fst (snd (proclaim ''v'' candidate3 queue_session)) = candidate3 \<and>
       store (snd (snd (proclaim ''v'' candidate3 queue_session))) =
         run_ops [OpPut k ''v'' (Some l)] (store queue_session)"
    by blast
  from c(1,2,3) have ck: "k = ''election/svc/3''" "r = 4" "l = 3"
    by (simp_all add: candidate3_def)
  have "current_create_revision (store queue_session) k = r"
    unfolding ck by (simp add: candidate_eval)
  with c(4) have b: "fst (proclaim ''v'' candidate3 queue_session) = Resolved () \<and>
       fst (snd (proclaim ''v'' candidate3 queue_session)) = candidate3 \<and>
       store (snd (snd (proclaim ''v'' candidate3 queue_session))) =
         run_ops [OpPut ''election/svc/3'' ''v'' (Some 3)] (store queue_session)"
    unfolding ck by (rule mp)
  have "truthy (leaderLeaseId stale3) \<and> leader_inv stale3"
    by (simp add: candidate_eval)
  from conjunct2 [OF proclaim_spec [of stale3 "''v''" queue_session], THEN mp, OF this]
  obtain k' r' l' where d:
    "leaderKey stale3 = Val k'" "leaderRevision stale3 = Val r'"
    "current_create_revision (store queue_session) k' \<noteq> r' \<longrightarrow>
       fst (proclaim ''v'' stale3 queue_session) = Rejected EtcdElectionNotLeaderError \<and>
       fst (snd (proclaim ''v'' stale3 queue_session)) = stale3\<lparr>leaderKey := Val []\<rparr> \<and>
       store (snd (snd (proclaim ''v'' stale3 queue_session))) = store queue_session"
    by blast
  from d(1,2) have dk: "k' = ''election/svc/3''" "r' = 5"
    by (simp_all add: stale3_def)
  have "current_create_revision (store queue_session) k' \<noteq> r'"
    unfolding dk by (simp add: candidate_eval)
  with d(3) have "fst (proclaim ''v'' stale3 queue_session) = Rejected EtcdElectionNotLeaderError \<and>
       fst (snd (proclaim ''v'' stale3 queue_session)) = stale3\<lparr>leaderKey := Val []\<rparr> \<and>
       store (snd (snd (proclaim ''v'' stale3 queue_session))) = store queue_session"
    by (rule mp)
  then have e: "fst (proclaim ''v'' stale3 queue_session) = Rejected EtcdElectionNotLeaderError \<and>
       leaderKey (fst (snd (proclaim ''v'' stale3 queue_session))) = Val [] \<and>
       store (snd (snd (proclaim ''v'' stale3 queue_session))) = store queue_session"
    by simp
  from a b e show ?thesis by (intro conjI) simp_all
qed

subsection \<open>resign\<close>

text \<open>
  C5. Without a lease identifier \<open>resign\<close> returns at once and leaves the election, its
  notifications included, and the session, the list of requests included, as they were.
  With one, in a state that keeps \<open>leader_inv\<close>, it sends one transaction: if the
  creation revision of \<open>leaderKey\<close> is \<open>leaderRevision\<close>, delete the key. Whether the
  condition holds or not, the promise is resolved, \<open>resigned\<close> is emitted, \<open>leaderKey\<close>
  becomes the empty string and \<open>leaderLeaseId\<close> becomes \<open>null\<close>; the store changes only
  when the condition holds.
\<close>

theorem resign_spec:
  "(\<not> truthy (leaderLeaseId e) \<longrightarrow> resign e s = (Returned, e, s)) \<and>
   (truthy (leaderLeaseId e) \<and> leader_inv e \<longrightarrow>
      (\<exists>k r.
         leaderKey e = Val k \<and> leaderRevision e = Val r \<and>
         fst (resign e s) = Resolved () \<and>
         fst (snd (resign e s)) =
           e\<lparr>leaderKey := Val [], leaderLeaseId := Null, emitted := emitted e @ [''resigned'']\<rparr> \<and>
         requests (snd (snd (resign e s))) =
           requests s @
             [ReqTxn \<lparr>condition =
                        \<lparr>cmp_key = k, cmp_target = Create, cmp_op = Equal, cmp_value = r\<rparr>,
                      success = [OpDelete k], failure = []\<rparr>] \<and>
         watchers (snd (snd (resign e s))) = watchers s \<and>
         store (snd (snd (resign e s))) =
           (if current_create_revision (store s) k = r
            then run_ops [OpDelete k] (store s) else store s)))"
proof (intro conjI impI)
  assume "\<not> truthy (leaderLeaseId e)"
  then show "resign e s = (Returned, e, s)"
    by (simp add: resign_def)
next
  assume a: "truthy (leaderLeaseId e) \<and> leader_inv e"
  from a obtain r where r: "leaderRevision e = Val r"
    by (cases "leaderRevision e") (auto simp: leader_inv_def lease_set_def revision_set_def)
  from a obtain k where k: "leaderKey e = Val k"
    by (cases "leaderKey e") (auto simp: leader_inv_def lease_set_def)
  show "\<exists>k r.
         leaderKey e = Val k \<and> leaderRevision e = Val r \<and>
         fst (resign e s) = Resolved () \<and>
         fst (snd (resign e s)) =
           e\<lparr>leaderKey := Val [], leaderLeaseId := Null, emitted := emitted e @ [''resigned'']\<rparr> \<and>
         requests (snd (snd (resign e s))) =
           requests s @
             [ReqTxn \<lparr>condition =
                        \<lparr>cmp_key = k, cmp_target = Create, cmp_op = Equal, cmp_value = r\<rparr>,
                      success = [OpDelete k], failure = []\<rparr>] \<and>
         watchers (snd (snd (resign e s))) = watchers s \<and>
         store (snd (snd (resign e s))) =
           (if current_create_revision (store s) k = r
            then run_ops [OpDelete k] (store s) else store s)"
    apply (rule exI [of _ k])
    apply (rule exI [of _ r])
    using k r a
    by (simp add: resign_def resign_txn_def session_commit_def commit_def run_ops_Nil Let_def
        emit_def)
qed

theorem resign_spec_witness:
  "resign svc queue_session = (Returned, svc, queue_session) \<and>
   fst (resign candidate3 queue_session) = Resolved () \<and>
   fst (snd (resign candidate3 queue_session)) =
     candidate3\<lparr>leaderKey := Val [], leaderLeaseId := Null, emitted := [''resigned'']\<rparr> \<and>
   store (snd (snd (resign candidate3 queue_session))) =
     run_ops [OpDelete ''election/svc/3''] (store queue_session) \<and>
   fst (resign stale3 queue_session) = Resolved () \<and>
   fst (snd (resign stale3 queue_session)) =
     stale3\<lparr>leaderKey := Val [], leaderLeaseId := Null, emitted := [''resigned'']\<rparr> \<and>
   store (snd (snd (resign stale3 queue_session))) = store queue_session"
proof -
  have a: "resign svc queue_session = (Returned, svc, queue_session)"
    using conjunct1 [OF resign_spec [of svc queue_session]]
    by (simp add: svc_def Election_def)
  have "truthy (leaderLeaseId candidate3) \<and> leader_inv candidate3"
    by (simp add: candidate_eval)
  from conjunct2 [OF resign_spec [of candidate3 queue_session], THEN mp, OF this]
  obtain k r where c:
    "leaderKey candidate3 = Val k" "leaderRevision candidate3 = Val r"
    "fst (resign candidate3 queue_session) = Resolved ()"
    "fst (snd (resign candidate3 queue_session)) =
       candidate3\<lparr>leaderKey := Val [], leaderLeaseId := Null,
                  emitted := emitted candidate3 @ [''resigned'']\<rparr>"
    "store (snd (snd (resign candidate3 queue_session))) =
       (if current_create_revision (store queue_session) k = r
        then run_ops [OpDelete k] (store queue_session) else store queue_session)"
    by blast
  from c(1,2) have ck: "k = ''election/svc/3''" "r = 4"
    by (simp_all add: candidate3_def)
  have cc: "current_create_revision (store queue_session) ''election/svc/3'' = 4"
    by (simp add: candidate_eval)
  have ce: "emitted candidate3 = []" by (simp add: candidate_eval)
  have b: "fst (snd (resign candidate3 queue_session)) =
       candidate3\<lparr>leaderKey := Val [], leaderLeaseId := Null, emitted := [''resigned'']\<rparr>"
    using c(4) by (simp add: ce)
  have b': "store (snd (snd (resign candidate3 queue_session))) =
       run_ops [OpDelete ''election/svc/3''] (store queue_session)"
    using c(5) unfolding ck by (simp add: cc)
  have "truthy (leaderLeaseId stale3) \<and> leader_inv stale3"
    by (simp add: candidate_eval)
  from conjunct2 [OF resign_spec [of stale3 queue_session], THEN mp, OF this]
  obtain k' r' where d:
    "leaderKey stale3 = Val k'" "leaderRevision stale3 = Val r'"
    "fst (resign stale3 queue_session) = Resolved ()"
    "fst (snd (resign stale3 queue_session)) =
       stale3\<lparr>leaderKey := Val [], leaderLeaseId := Null,
              emitted := emitted stale3 @ [''resigned'']\<rparr>"
    "store (snd (snd (resign stale3 queue_session))) =
       (if current_create_revision (store queue_session) k' = r'
        then run_ops [OpDelete k'] (store queue_session) else store queue_session)"
    by blast
  from d(1,2) have dk: "k' = ''election/svc/3''" "r' = 5"
    by (simp_all add: stale3_def)
  have de: "emitted stale3 = []" by (simp add: candidate_eval)
  have e: "fst (snd (resign stale3 queue_session)) =
       stale3\<lparr>leaderKey := Val [], leaderLeaseId := Null, emitted := [''resigned'']\<rparr>"
    using d(4) by (simp add: de)
  have e': "store (snd (snd (resign stale3 queue_session))) = store queue_session"
    using d(5) unfolding dk by (simp add: cc)
  from a c(3) b b' d(3) e e' show ?thesis by (intro conjI)
qed

subsection \<open>leader\<close>

lemma leader_rows:
  "set (kvs (range_query (leader_query e) st)) =
     {x \<in> set (store_kvs st). has_prefix (getPrefix e) (kv_key x)}"
  by (auto simp: range_query_def leader_query_def in_range_def)

lemma leader_rows_sorted:
  "sorted (map (\<lambda>x. - create_revision x) (kvs (range_query (leader_query e) st)))"
  by (simp add: range_query_def leader_query_def)

lemma leader_first_row_newest:
  assumes "kvs (range_query (leader_query e) st) = x # xs"
  shows "x \<in> set (store_kvs st) \<and> has_prefix (getPrefix e) (kv_key x) \<and>
         (\<forall>y\<in>set (store_kvs st).
            has_prefix (getPrefix e) (kv_key y) \<longrightarrow> create_revision y \<le> create_revision x)"
proof -
  have mem: "x \<in> set (kvs (range_query (leader_query e) st))"
    using assms by simp
  then have 1: "x \<in> set (store_kvs st) \<and> has_prefix (getPrefix e) (kv_key x)"
    by (simp add: leader_rows)
  have "\<forall>y\<in>set xs. - create_revision x \<le> - create_revision y"
    using leader_rows_sorted [of e st] assms by simp
  then have "\<forall>y\<in>set (x # xs). create_revision y \<le> create_revision x"
    by auto
  then have "\<forall>y\<in>set (kvs (range_query (leader_query e) st)).
      create_revision y \<le> create_revision x"
    by (simp only: assms)
  then have 2: "\<forall>y\<in>set (store_kvs st).
      has_prefix (getPrefix e) (kv_key y) \<longrightarrow> create_revision y \<le> create_revision x"
    by (simp add: leader_rows)
  from 1 2 show ?thesis by blast
qed

text \<open>
  C6. \<open>leader\<close> sends one range query over the election prefix, sorted by creation
  revision, descending, and changes neither the election nor the store. If no key of
  the store is under the prefix the promise is rejected with \<open>NoLeader\<close>; otherwise
  it is resolved with the value of the first row, a key under the prefix that no other
  key under the prefix exceeds in creation revision.
\<close>

theorem leader_spec:
  "fst (snd (leader e s)) = e \<and>
   store (snd (snd (leader e s))) = store s \<and>
   watchers (snd (snd (leader e s))) = watchers s \<and>
   requests (snd (snd (leader e s))) =
     requests s @
       [ReqRange \<lparr>rq_prefix = getPrefix e, rq_maxCreateRevision = None,
                  rq_sort_target = Create, rq_sort_order = Descend\<rparr>] \<and>
   ((\<forall>x\<in>set (store_kvs (store s)). \<not> has_prefix (getPrefix e) (kv_key x)) \<longrightarrow>
      fst (leader e s) = Rejected EtcdElectionNoLeaderError) \<and>
   ((\<exists>x\<in>set (store_kvs (store s)). has_prefix (getPrefix e) (kv_key x)) \<longrightarrow>
      (\<exists>x xs.
         kvs (range_query (leader_query e) (store s)) = x # xs \<and>
         fst (leader e s) = Resolved (kv_value x) \<and>
         x \<in> set (store_kvs (store s)) \<and> has_prefix (getPrefix e) (kv_key x) \<and>
         (\<forall>y\<in>set (store_kvs (store s)).
            has_prefix (getPrefix e) (kv_key y) \<longrightarrow> create_revision y \<le> create_revision x)))"
proof -
  have frame: "fst (snd (leader e s)) = e \<and>
      store (snd (snd (leader e s))) = store s \<and>
      watchers (snd (snd (leader e s))) = watchers s \<and>
      requests (snd (snd (leader e s))) =
        requests s @
          [ReqRange \<lparr>rq_prefix = getPrefix e, rq_maxCreateRevision = None,
                     rq_sort_target = Create, rq_sort_order = Descend\<rparr>]"
    by (simp add: leader_def session_range_def leader_query_def split: list.splits)
  have none: "fst (leader e s) = Rejected EtcdElectionNoLeaderError"
    if "\<forall>x\<in>set (store_kvs (store s)). \<not> has_prefix (getPrefix e) (kv_key x)"
  proof -
    from that have "set (kvs (range_query (leader_query e) (store s))) = {}"
      by (simp add: leader_rows)
    then have "kvs (range_query (leader_query e) (store s)) = []" by simp
    then show ?thesis by (simp add: leader_def session_range_def)
  qed
  have some: "\<exists>x xs.
         kvs (range_query (leader_query e) (store s)) = x # xs \<and>
         fst (leader e s) = Resolved (kv_value x) \<and>
         x \<in> set (store_kvs (store s)) \<and> has_prefix (getPrefix e) (kv_key x) \<and>
         (\<forall>y\<in>set (store_kvs (store s)).
            has_prefix (getPrefix e) (kv_key y) \<longrightarrow> create_revision y \<le> create_revision x)"
    if "\<exists>x\<in>set (store_kvs (store s)). has_prefix (getPrefix e) (kv_key x)"
  proof -
    from that have "set (kvs (range_query (leader_query e) (store s))) \<noteq> {}"
      by (auto simp: leader_rows)
    then obtain x xs where row: "kvs (range_query (leader_query e) (store s)) = x # xs"
      by (cases "kvs (range_query (leader_query e) (store s))") auto
    then have "fst (leader e s) = Resolved (kv_value x)"
      by (simp add: leader_def session_range_def)
    with row leader_first_row_newest [OF row] show ?thesis by blast
  qed
  from frame none some show ?thesis by blast
qed

theorem leader_spec_witness:
  "fst (leader svc empty_session) = Rejected EtcdElectionNoLeaderError \<and>
   fst (leader svc queue_session) = Resolved ''z'' \<and>
   fst (snd (leader svc queue_session)) = svc \<and>
   store (snd (snd (leader svc queue_session))) = store queue_session"
proof -
  have "\<forall>x\<in>set (store_kvs (store empty_session)). \<not> has_prefix (getPrefix svc) (kv_key x)"
    by (simp add: empty_session_def)
  with leader_spec [of svc empty_session]
  have a: "fst (leader svc empty_session) = Rejected EtcdElectionNoLeaderError"
    by blast
  have "\<exists>x\<in>set (store_kvs (store queue_session)). has_prefix (getPrefix svc) (kv_key x)"
    by (simp add: queue_eval)
  with leader_spec [of svc queue_session]
  obtain x xs where r: "kvs (range_query (leader_query svc) (store queue_session)) = x # xs"
    "fst (leader svc queue_session) = Resolved (kv_value x)"
    by blast
  have "kvs (range_query (leader_query svc) (store queue_session)) =
      [\<lparr>kv_key = ''election/svc/3'', kv_value = ''z'', create_revision = 4, kv_lease = Some 3\<rparr>,
       \<lparr>kv_key = ''election/svc/2'', kv_value = ''y'', create_revision = 3, kv_lease = Some 2\<rparr>,
       \<lparr>kv_key = ''election/svc/1'', kv_value = ''x'', create_revision = 2, kv_lease = Some 1\<rparr>]"
    by (simp add: queue_eval leader_query_def)
  with r(1) have "kv_value x = ''z''" by auto
  with r(2) have b: "fst (leader svc queue_session) = Resolved ''z''" by simp
  from leader_spec [of svc queue_session]
  have c: "fst (snd (leader svc queue_session)) = svc"
    and d: "store (snd (snd (leader svc queue_session))) = store queue_session"
    by blast+
  from a b c d show ?thesis by (intro conjI)
qed

subsection \<open>The end of a campaign\<close>

text \<open>
  C7. When the \<open>waitDeletes\<close> call of a campaign returns, the campaign is over and has
  emitted \<open>elected\<close> if \<open>leaderKey\<close> is not the empty string at that step, and nothing
  otherwise; a step in which the call does not return emits nothing. After a \<open>resign\<close>
  that ran while the campaign waited, the returning call adds nothing to the
  notifications: they end with \<open>resigned\<close>.
\<close>

theorem elected_iff_leaderKey:
  "(fst (waitDeletes_step e b ws s) = WDone h \<longrightarrow>
      campaign_step (TWait b ws) e s =
        (TFinished,
         if leaderKey e \<noteq> Val [] then e\<lparr>emitted := emitted e @ [''elected'']\<rparr> else e,
         snd (waitDeletes_step e b ws s))) \<and>
   ((\<forall>h'. fst (waitDeletes_step e b ws s) \<noteq> WDone h') \<longrightarrow>
      campaign_step (TWait b ws) e s =
        (TWait b (fst (waitDeletes_step e b ws s)), e, snd (waitDeletes_step e b ws s))) \<and>
   (truthy (leaderLeaseId e0) \<and> leader_inv e0 \<and>
    fst (waitDeletes_step (fst (snd (resign e0 s0))) b ws s) = WDone h \<longrightarrow>
      emitted (fst (snd (campaign_step (TWait b ws) (fst (snd (resign e0 s0))) s))) =
        emitted e0 @ [''resigned''])"
proof (intro conjI impI)
  assume "fst (waitDeletes_step e b ws s) = WDone h"
  then show "campaign_step (TWait b ws) e s =
        (TFinished,
         if leaderKey e \<noteq> Val [] then e\<lparr>emitted := emitted e @ [''elected'']\<rparr> else e,
         snd (waitDeletes_step e b ws s))"
    by (cases "waitDeletes_step e b ws s") (simp add: emit_def)
next
  assume "\<forall>h'. fst (waitDeletes_step e b ws s) \<noteq> WDone h'"
  then show "campaign_step (TWait b ws) e s =
        (TWait b (fst (waitDeletes_step e b ws s)), e, snd (waitDeletes_step e b ws s))"
    by (cases "waitDeletes_step e b ws s") (auto split: wait_state.splits)
next
  assume a: "truthy (leaderLeaseId e0) \<and> leader_inv e0 \<and>
    fst (waitDeletes_step (fst (snd (resign e0 s0))) b ws s) = WDone h"
  let ?e = "fst (snd (resign e0 s0))"
  from a obtain r where r: "leaderRevision e0 = Val r"
    by (cases "leaderRevision e0") (auto simp: leader_inv_def lease_set_def revision_set_def)
  from a obtain k where k: "leaderKey e0 = Val k"
    by (cases "leaderKey e0") (auto simp: leader_inv_def lease_set_def)
  have e: "?e = e0\<lparr>leaderKey := Val [], leaderLeaseId := Null,
                   emitted := emitted e0 @ [''resigned'']\<rparr>"
    using a r k by (simp add: resign_def emit_def split: prod.splits)
  then have "leaderKey ?e = Val []" and "emitted ?e = emitted e0 @ [''resigned'']"
    by simp_all
  moreover from a have "fst (waitDeletes_step ?e b ws s) = WDone h" by simp
  ultimately show "emitted (fst (snd (campaign_step (TWait b ws) ?e s))) =
      emitted e0 @ [''resigned'']"
    by (cases "waitDeletes_step ?e b ws s") simp
qed

theorem elected_iff_leaderKey_witness:
  "campaign_step (TWait 1 WQuery) candidate3 queue_session =
     (TFinished, candidate3\<lparr>emitted := [''elected'']\<rparr>,
      snd (waitDeletes_step candidate3 1 WQuery queue_session)) \<and>
   campaign_step (TWait 3 WQuery) candidate3 queue_session =
     (TWait 3 (WWatch ''election/svc/1'' 4), candidate3,
      snd (waitDeletes_step candidate3 3 WQuery queue_session)) \<and>
   emitted (fst (snd (campaign_step (TWait 1 WQuery)
                        (fst (snd (resign candidate3 queue_session))) queue_session))) =
     [''resigned'']"
proof -
  have k: "leaderKey candidate3 \<noteq> Val []" "emitted candidate3 = []"
    by (simp_all add: candidate3_def svc_def Election_def)
  have p: "getPrefix e = ''election/svc/''" if "keyPrefix e = ''svc''" for e
    using that by (simp add: getPrefix_def)
  have kp: "keyPrefix candidate3 = ''svc''"
    "keyPrefix (fst (snd (resign candidate3 queue_session))) = ''svc''"
    by (simp_all add: candidate_eval resign_def emit_def split: prod.splits)
  have d1: "fst (waitDeletes_step candidate3 1 WQuery queue_session) = WDone \<lparr>revision = 4\<rparr>"
    by (simp add: p [OF kp(1)] waitDeletes_query_def session_range_def range_query_def
        in_range_def has_prefix_def queue_session_def queue_store_def)
  have d3: "fst (waitDeletes_step candidate3 3 WQuery queue_session) =
      WWatch ''election/svc/1'' 4"
    by (simp add: p [OF kp(1)] waitDeletes_query_def session_range_def range_query_def
        in_range_def has_prefix_def queue_session_def queue_store_def)
  have d2: "fst (waitDeletes_step (fst (snd (resign candidate3 queue_session))) 1 WQuery
      queue_session) = WDone \<lparr>revision = 4\<rparr>"
    by (simp add: p [OF kp(2)] waitDeletes_query_def session_range_def range_query_def
        in_range_def has_prefix_def queue_session_def queue_store_def)
  have i: "truthy (leaderLeaseId candidate3) \<and> leader_inv candidate3"
    by (simp add: candidate_eval)
  note t1 = elected_iff_leaderKey [of candidate3 1 WQuery queue_session "\<lparr>revision = 4\<rparr>"
      candidate3 queue_session]
  note t3 = elected_iff_leaderKey [of candidate3 3 WQuery queue_session "\<lparr>revision = 4\<rparr>"
      candidate3 queue_session]
  have a: "campaign_step (TWait 1 WQuery) candidate3 queue_session =
     (TFinished, candidate3\<lparr>emitted := [''elected'']\<rparr>,
      snd (waitDeletes_step candidate3 1 WQuery queue_session))"
    using conjunct1 [OF t1, THEN mp, OF d1] k by simp
  have "\<forall>h'. fst (waitDeletes_step candidate3 3 WQuery queue_session) \<noteq> WDone h'"
    unfolding d3 by simp
  from conjunct1 [OF conjunct2 [OF t3], THEN mp, OF this]
  have b: "campaign_step (TWait 3 WQuery) candidate3 queue_session =
     (TWait 3 (WWatch ''election/svc/1'' 4), candidate3,
      snd (waitDeletes_step candidate3 3 WQuery queue_session))"
    unfolding d3 .
  from conjunct2 [OF conjunct2 [OF t1], THEN mp, OF conjI [OF conjunct1 [OF i]
      conjI [OF conjunct2 [OF i] d2]]]
  have c: "emitted (fst (snd (campaign_step (TWait 1 WQuery)
                        (fst (snd (resign candidate3 queue_session))) queue_session))) =
     [''resigned'']"
    by (simp add: k)
  from a b c show ?thesis by (intro conjI)
qed

subsection \<open>The transaction of a campaign\<close>





subsection \<open>The leader triple\<close>

lemma leader_inv_emit: "leader_inv (emit ev e) = leader_inv e"
  by (simp add: leader_inv_def emit_def key_set_def lease_set_def revision_set_def)

lemma revision_set_emit: "revision_set (emit ev e) = revision_set e"
  by (simp add: emit_def revision_set_def)

lemma campaign_step_inv:
  "leader_inv e \<Longrightarrow> leader_inv (fst (snd (campaign_step t e s)))"
proof (cases t)
  case (TCommit k v l)
  then show ?thesis
    by (simp add: leader_inv_def key_set_def lease_set_def revision_set_def Let_def
        split: prod.splits)
next
  case (TWait b ws)
  assume "leader_inv e"
  with TWait show ?thesis
    by (cases "waitDeletes_step e b ws s")
      (auto simp: leader_inv_emit split: wait_state.splits)
qed simp_all

lemma proclaim_election:
  "fst (snd (proclaim v e s)) = e \<or> fst (snd (proclaim v e s)) = e\<lparr>leaderKey := Val []\<rparr>"
  by (cases "leaderKey e"; cases "leaderRevision e"; cases "leaderLeaseId e")
    (simp_all add: proclaim_def Let_def split: prod.splits)

lemma resign_election:
  "fst (snd (resign e s)) = e \<or>
   fst (snd (resign e s)) = (emit ''resigned'' e)\<lparr>leaderKey := Val [], leaderLeaseId := Null\<rparr>"
  by (cases "leaderKey e"; cases "leaderRevision e"; cases "leaderLeaseId e")
    (simp_all add: resign_def Let_def split: prod.splits)

lemma proclaim_inv: "leader_inv e \<Longrightarrow> leader_inv (fst (snd (proclaim v e s)))"
  using proclaim_election [of v e s]
  by (auto simp: leader_inv_def key_set_def lease_set_def revision_set_def)

lemma resign_inv: "leader_inv e \<Longrightarrow> leader_inv (fst (snd (resign e s)))"
  using resign_election [of e s]
  by (auto simp: emit_def leader_inv_def key_set_def lease_set_def revision_set_def)

lemma proclaim_revision: "revision_set e \<Longrightarrow> revision_set (fst (snd (proclaim v e s)))"
  using proclaim_election [of v e s] by (auto simp: revision_set_def)

lemma resign_revision: "revision_set e \<Longrightarrow> revision_set (fst (snd (resign e s)))"
  using resign_election [of e s] by (auto simp: emit_def revision_set_def)

lemma leader_unchanged: "fst (snd (leader e s)) = e"
  by (simp add: leader_def split: prod.splits list.splits)

lemma step_inv: "leader_inv (el w) \<Longrightarrow> leader_inv (el (step a w))"
proof (cases a)
  case (Run i)
  assume "leader_inv (el w)"
  with Run campaign_step_inv [of "el w" "tasks w ! i" "sess w"] show ?thesis
    by (auto split: prod.splits)
next
  case (Proclaim v)
  assume "leader_inv (el w)"
  with Proclaim proclaim_inv [of "el w" v "sess w"] show ?thesis
    by (auto split: prod.splits)
next
  case Resign
  assume "leader_inv (el w)"
  with Resign resign_inv [of "el w" "sess w"] show ?thesis
    by (auto split: prod.splits)
next
  case Leader
  assume "leader_inv (el w)"
  with Leader leader_unchanged [of "el w" "sess w"] show ?thesis
    by (auto split: prod.splits)
qed (auto simp: campaign_def)

lemma exec_inv: "leader_inv (el w) \<Longrightarrow> leader_inv (el (exec as w))"
  by (induction as arbitrary: w) (simp_all add: step_inv)

lemma campaign_step_revision:
  "revision_set e \<Longrightarrow> revision_set (fst (snd (campaign_step t e s)))"
proof (cases t)
  case (TCommit k v l)
  then show ?thesis
    by (simp add: revision_set_def Let_def split: prod.splits)
next
  case (TWait b ws)
  assume "revision_set e"
  with TWait show ?thesis
    by (cases "waitDeletes_step e b ws s")
      (auto simp: revision_set_emit split: wait_state.splits)
qed simp_all

lemma step_revision: "revision_set (el w) \<Longrightarrow> revision_set (el (step a w))"
proof (cases a)
  case (Run i)
  assume "revision_set (el w)"
  with Run campaign_step_revision [of "el w" "tasks w ! i" "sess w"] show ?thesis
    by (auto split: prod.splits)
next
  case (Proclaim v)
  assume "revision_set (el w)"
  with Proclaim proclaim_revision [of "el w" v "sess w"] show ?thesis
    by (auto split: prod.splits)
next
  case Resign
  assume "revision_set (el w)"
  with Resign resign_revision [of "el w" "sess w"] show ?thesis
    by (auto split: prod.splits)
next
  case Leader
  assume "revision_set (el w)"
  with Leader leader_unchanged [of "el w" "sess w"] show ?thesis
    by (auto split: prod.splits)
qed (auto simp: campaign_def)

lemma exec_revision: "revision_set (el w) \<Longrightarrow> revision_set (el (exec as w))"
  by (induction as arbitrary: w) (simp_all add: step_revision)

lemmas world_eval = new_world_def empty_session_def Election_def campaign_def session_lease_def
  getKey_def getPrefix_def campaign_txn_def session_commit_def commit_def
  current_create_revision_def run_ops_def has_key_def resign_def resign_txn_def emit_def Let_def

text \<open>
  C3, as stated, fails: after a campaign has recorded its key and \<open>resign\<close> has run,
  \<open>leaderKey\<close> is the empty string and \<open>leaderLeaseId\<close> is \<open>null\<close>, and \<open>leaderRevision\<close>
  still holds the revision of the campaign.
\<close>

theorem leader_triple_counterexample:
  "leaderKey (el (exec [Campaign ''x'', Granted 0 1, Run 0, Resign]
                    (new_world ''svc'' None empty_session))) = Val [] \<and>
   leaderRevision (el (exec [Campaign ''x'', Granted 0 1, Run 0, Resign]
                         (new_world ''svc'' None empty_session))) = Val 2 \<and>
   leaderLeaseId (el (exec [Campaign ''x'', Granted 0 1, Run 0, Resign]
                        (new_world ''svc'' None empty_session))) = Null \<and>
   \<not> triple_together (el (exec [Campaign ''x'', Granted 0 1, Run 0, Resign]
                             (new_world ''svc'' None empty_session)))"
proof -
  have h: "toString16 1 = ''1''" by code_simp
  have e: "el (exec [Campaign ''x'', Granted 0 1, Run 0, Resign]
                (new_world ''svc'' None empty_session)) =
      \<lparr>keyPrefix = ''svc'', timeout = 5, leaderKey = Val [], leaderRevision = Val 2,
       leaderLeaseId = Null, emitted = [''resigned'']\<rparr>"
    by (simp add: world_eval h)
  show ?thesis
    unfolding e by (simp add: triple_together_def key_set_def revision_set_def lease_set_def)
qed

text \<open>
  C3, amended. After every sequence of operations, callbacks and writes of other clients
  on a new election: a non-empty \<open>leaderKey\<close> comes with a \<open>leaderLeaseId\<close>, and a
  \<open>leaderLeaseId\<close> comes with a \<open>leaderRevision\<close> and an assigned, possibly empty,
  \<open>leaderKey\<close>. And no such sequence clears a \<open>leaderRevision\<close> that is assigned.
\<close>

theorem leader_triple_invariant:
  "leader_inv (el (exec as (new_world prefix t s))) \<and>
   (revision_set (el w) \<longrightarrow> revision_set (el (exec as w)))"
proof
  have "leader_inv (el (new_world prefix t s))"
    by (simp add: new_world_def Election_def leader_inv_def key_set_def lease_set_def)
  then show "leader_inv (el (exec as (new_world prefix t s)))"
    by (rule exec_inv)
  show "revision_set (el w) \<longrightarrow> revision_set (el (exec as w))"
    using exec_revision by blast
qed

theorem leader_triple_invariant_witness:
  "leader_inv (el (exec [Campaign ''x'', Granted 0 1, Run 0, Resign]
                     (new_world ''svc'' None empty_session))) \<and>
   revision_set (el (exec [Resign] \<lparr>el = candidate3, sess = queue_session, tasks = []\<rparr>))"
proof -
  have "revision_set (el \<lparr>el = candidate3, sess = queue_session, tasks = []\<rparr>)"
    by (simp add: candidate_eval)
  with leader_triple_invariant
    [of "[Campaign ''x'', Granted 0 1, Run 0, Resign]" "''svc''" None empty_session]
    leader_triple_invariant
    [of "[Resign]" _ _ _ "\<lparr>el = candidate3, sess = queue_session, tasks = []\<rparr>"]
  show ?thesis by blast
qed

subsection \<open>A campaign on a key that exists\<close>

lemma wf_store_apply_op:
  assumes "0 < r"
    and "list_all (\<lambda>x. 0 < create_revision x \<and> create_revision x \<le> r) (store_kvs st)"
  shows "list_all (\<lambda>x. 0 < create_revision x \<and> create_revision x \<le> r)
           (store_kvs (apply_op r st x))"
  using assms by (cases x) (auto simp: list_all_iff)

lemma wf_store_foldl:
  assumes "0 < r"
    and "list_all (\<lambda>x. 0 < create_revision x \<and> create_revision x \<le> r) (store_kvs st)"
  shows "list_all (\<lambda>x. 0 < create_revision x \<and> create_revision x \<le> r)
           (store_kvs (foldl (apply_op r) st xs))"
  using assms(2)
proof (induction xs arbitrary: st)
  case Nil
  then show ?case by simp
next
  case (Cons x xs)
  from wf_store_apply_op [OF assms(1) Cons.prems] Cons.IH show ?case by simp
qed

lemma wf_store_run_ops: "wf_store st \<Longrightarrow> wf_store (run_ops xs st)"
proof -
  assume w: "wf_store st"
  then have "list_all (\<lambda>x. 0 < create_revision x \<and> create_revision x \<le> store_revision st + 1)
      (store_kvs st)"
    by (auto simp: wf_store_def list_all_iff)
  with w wf_store_foldl [of "store_revision st + 1" st xs]
  show ?thesis by (simp add: run_ops_def wf_store_def)
qed

lemma wf_store_env_apply: "wf_store st \<Longrightarrow> wf_store (env_apply a st)"
  by (cases a) (simp_all add: wf_store_run_ops)

lemma wf_store_commit: "wf_store st \<Longrightarrow> wf_store (snd (commit t st))"
  by (simp add: commit_def Let_def wf_store_run_ops)

lemma existing_key_revision:
  assumes "wf_store st" and "has_key st k"
  shows "0 < current_create_revision st k \<and> current_create_revision st k \<le> store_revision st"
proof -
  from assms(2) obtain x where x: "find (\<lambda>x. kv_key x = k) (store_kvs st) = Some x"
    by (cases "find (\<lambda>x. kv_key x = k) (store_kvs st)")
      (auto simp: has_key_def list_ex_iff find_None_iff)
  then have "x \<in> set (store_kvs st)"
    by (auto simp: find_Some_iff)
  with assms(1) have "0 < create_revision x \<and> create_revision x \<le> store_revision st"
    by (auto simp: wf_store_def list_all_iff)
  with x show ?thesis by (simp add: current_create_revision_def)
qed

lemma reentrant_commit:
  assumes "wf_store (store s)" and "has_key (store s) k"
  shows "campaign_step (TCommit k v l) e s =
           (TWait (store_revision (store s) - 1) WQuery,
            e\<lparr>leaderKey := Val k, leaderRevision := Val (store_revision (store s)),
              leaderLeaseId := Val l\<rparr>,
            s\<lparr>requests := requests s @ [ReqTxn (campaign_txn k v l)]\<rparr>)"
proof -
  from existing_key_revision [OF assms] have "current_create_revision (store s) k \<noteq> 0"
    by simp
  then show ?thesis
    by (simp add: campaign_txn_def session_commit_def commit_def run_ops_def Let_def)
qed

lemma created_key_exists: "current_create_revision st k \<noteq> 0 \<Longrightarrow> has_key st k"
  by (cases "find (\<lambda>x. kv_key x = k) (store_kvs st)")
    (auto simp: current_create_revision_def has_key_def list_ex_iff find_Some_iff)

text \<open>
  C10, as stated, fails: the candidate of lease 3 campaigns again while its key, created
  at revision 4 by the last write to the store, exists. The transaction's condition
  fails, the recorded revision is 4, the creation revision of the key, and a following
  \<open>proclaim\<close> is resolved.
\<close>

theorem reentrant_campaign_counterexample:
  "current_create_revision (store queue_session) ''election/svc/3'' = 4 \<and>
   leaderRevision (fst (snd (campaign_step (TCommit ''election/svc/3'' ''w'' 3) svc queue_session)))
     = Val 4 \<and>
   fst (proclaim ''v''
          (fst (snd (campaign_step (TCommit ''election/svc/3'' ''w'' 3) svc queue_session)))
          (snd (snd (campaign_step (TCommit ''election/svc/3'' ''w'' 3) svc queue_session))))
     = Resolved ()"
  by (simp add: campaign_txn_def session_commit_def commit_def run_ops_def Let_def
      queue_session_def queue_store_def current_create_revision_def has_key_def
      proclaim_def proclaim_txn_def)

text \<open>
  C10, amended. If a campaign commits while its key exists in a well-formed store, the
  condition fails, the store is unchanged and the recorded \<open>leaderRevision\<close> is the
  revision of the store at that commit, which is at least the creation revision of the
  key. A following \<open>proclaim\<close>, on any later session, is rejected with \<open>NotLeader\<close> and
  empties \<open>leaderKey\<close> if the creation revision of the key then differs from the
  recorded revision, and is resolved if it equals it. So while the key keeps its
  creation revision it still exists, and \<open>proclaim\<close> is rejected, the key left in place,
  if the recorded revision is greater than that creation revision, and is resolved if
  the two are equal.
\<close>

theorem reentrant_campaign_revision:
  assumes "wf_store (store s)" and "has_key (store s) k"
    and "campaign_step (TCommit k v l) e s = (t', e', s')"
  shows "store s' = store s \<and>
         leaderKey e' = Val k \<and> leaderLeaseId e' = Val l \<and>
         leaderRevision e' = Val (store_revision (store s)) \<and>
         current_create_revision (store s) k \<le> store_revision (store s) \<and>
         (current_create_revision (store later) k \<noteq> store_revision (store s) \<longrightarrow>
            fst (proclaim v' e' later) = Rejected EtcdElectionNotLeaderError \<and>
            leaderKey (fst (snd (proclaim v' e' later))) = Val [] \<and>
            store (snd (snd (proclaim v' e' later))) = store later) \<and>
         (current_create_revision (store later) k = store_revision (store s) \<longrightarrow>
            fst (proclaim v' e' later) = Resolved ()) \<and>
         (current_create_revision (store later) k = current_create_revision (store s) k \<longrightarrow>
            has_key (store later) k \<and>
            (current_create_revision (store s) k < store_revision (store s) \<longrightarrow>
               fst (proclaim v' e' later) = Rejected EtcdElectionNotLeaderError \<and>
               leaderKey (fst (snd (proclaim v' e' later))) = Val [] \<and>
               has_key (store (snd (snd (proclaim v' e' later)))) k) \<and>
            (current_create_revision (store s) k = store_revision (store s) \<longrightarrow>
               fst (proclaim v' e' later) = Resolved ()))"
proof -
  from reentrant_commit [OF assms(1,2), of v l e] assms(3)
  have e': "e' = e\<lparr>leaderKey := Val k, leaderRevision := Val (store_revision (store s)),
                   leaderLeaseId := Val l\<rparr>"
    and s': "s' = s\<lparr>requests := requests s @ [ReqTxn (campaign_txn k v l)]\<rparr>"
    by simp_all
  from existing_key_revision [OF assms(1,2)]
  have pos: "0 < current_create_revision (store s) k"
    and le: "current_create_revision (store s) k \<le> store_revision (store s)" by simp_all
  have rej: "fst (proclaim v' e' later) = Rejected EtcdElectionNotLeaderError \<and>
            leaderKey (fst (snd (proclaim v' e' later))) = Val [] \<and>
            store (snd (snd (proclaim v' e' later))) = store later"
    if "current_create_revision (store later) k \<noteq> store_revision (store s)"
    using that
    by (simp add: e' proclaim_def proclaim_txn_def session_commit_def commit_def
        run_ops_def Let_def)
  have res: "fst (proclaim v' e' later) = Resolved ()"
    if "current_create_revision (store later) k = store_revision (store s)"
    using that
    by (simp add: e' proclaim_def proclaim_txn_def session_commit_def commit_def Let_def)
  have keep: "has_key (store later) k \<and>
            (current_create_revision (store s) k < store_revision (store s) \<longrightarrow>
               fst (proclaim v' e' later) = Rejected EtcdElectionNotLeaderError \<and>
               leaderKey (fst (snd (proclaim v' e' later))) = Val [] \<and>
               has_key (store (snd (snd (proclaim v' e' later)))) k) \<and>
            (current_create_revision (store s) k = store_revision (store s) \<longrightarrow>
               fst (proclaim v' e' later) = Resolved ())"
    if same: "current_create_revision (store later) k = current_create_revision (store s) k"
  proof -
    from same pos have hk: "has_key (store later) k"
      by (intro created_key_exists) simp
    have "fst (proclaim v' e' later) = Rejected EtcdElectionNotLeaderError \<and>
          leaderKey (fst (snd (proclaim v' e' later))) = Val [] \<and>
          has_key (store (snd (snd (proclaim v' e' later)))) k"
      if "current_create_revision (store s) k < store_revision (store s)"
    proof -
      from that same have "current_create_revision (store later) k \<noteq> store_revision (store s)"
        by simp
      from rej [OF this] hk show ?thesis by simp
    qed
    moreover have "fst (proclaim v' e' later) = Resolved ()"
      if "current_create_revision (store s) k = store_revision (store s)"
      using that same res by simp
    ultimately show ?thesis using hk by blast
  qed
  have frame: "store s' = store s \<and> leaderKey e' = Val k \<and> leaderLeaseId e' = Val l \<and>
      leaderRevision e' = Val (store_revision (store s))"
    by (simp add: e' s')
  from frame le rej res keep show ?thesis by blast
qed

theorem reentrant_campaign_revision_witness:
  "leaderRevision (fst (snd (campaign_step (TCommit ''election/svc/2'' ''w'' 2) svc queue_session)))
     = Val 4 \<and>
   store later_session \<noteq> store queue_session \<and>
   current_create_revision (store later_session) ''election/svc/2'' = 3 \<and>
   has_key (store later_session) ''election/svc/2'' \<and>
   fst (proclaim ''v''
          (fst (snd (campaign_step (TCommit ''election/svc/2'' ''w'' 2) svc queue_session)))
          later_session)
     = Rejected EtcdElectionNotLeaderError \<and>
   current_create_revision (store later_session) ''election/svc/3'' = 4 \<and>
   fst (proclaim ''v''
          (fst (snd (campaign_step (TCommit ''election/svc/3'' ''w'' 3) svc queue_session)))
          later_session)
     = Resolved ()"
proof -
  let ?c = "campaign_step (TCommit ''election/svc/2'' ''w'' 2) svc queue_session"
  let ?d = "campaign_step (TCommit ''election/svc/3'' ''w'' 3) svc queue_session"
  have w: "wf_store (store queue_session)"
    by (simp add: wf_store_def queue_session_def queue_store_def)
  have h: "has_key (store queue_session) ''election/svc/2''"
    by (simp add: has_key_def queue_session_def queue_store_def)
  have h3: "has_key (store queue_session) ''election/svc/3''"
    by (simp add: has_key_def queue_session_def queue_store_def)
  have c: "?c = (fst ?c, fst (snd ?c), snd (snd ?c))" by simp
  have d: "?d = (fst ?d, fst (snd ?d), snd (snd ?d))" by simp
  have r: "store_revision (store queue_session) = 4"
    by (simp add: queue_session_def queue_store_def)
  have k: "current_create_revision (store queue_session) ''election/svc/2'' = 3"
    by (simp add: current_create_revision_def queue_session_def queue_store_def)
  have k3: "current_create_revision (store queue_session) ''election/svc/3'' = 4"
    by (simp add: current_create_revision_def queue_session_def queue_store_def)
  have moved: "store later_session \<noteq> store queue_session"
    by (simp add: later_session_def session_env_def run_ops_def has_key_def
        queue_session_def queue_store_def)
  have lk: "current_create_revision (store later_session) ''election/svc/2'' = 3"
    by (simp add: later_session_def session_env_def run_ops_def has_key_def
        current_create_revision_def queue_session_def queue_store_def)
  have lk3: "current_create_revision (store later_session) ''election/svc/3'' = 4"
    by (simp add: later_session_def session_env_def run_ops_def has_key_def
        current_create_revision_def queue_session_def queue_store_def)
  note t = reentrant_campaign_revision [OF w h c, of later_session "''v''"]
  from t have a: "leaderRevision (fst (snd ?c)) = Val 4"
    unfolding r by blast
  from t have "current_create_revision (store later_session) ''election/svc/2'' =
      current_create_revision (store queue_session) ''election/svc/2'' \<longrightarrow>
      has_key (store later_session) ''election/svc/2'' \<and>
      (current_create_revision (store queue_session) ''election/svc/2'' <
         store_revision (store queue_session) \<longrightarrow>
       fst (proclaim ''v'' (fst (snd ?c)) later_session) = Rejected EtcdElectionNotLeaderError)"
    by blast
  then have b: "has_key (store later_session) ''election/svc/2'' \<and>
      fst (proclaim ''v'' (fst (snd ?c)) later_session) = Rejected EtcdElectionNotLeaderError"
    unfolding r k lk by simp
  note u = reentrant_campaign_revision [OF w h3 d, of later_session "''v''"]
  from u have "current_create_revision (store later_session) ''election/svc/3'' =
      current_create_revision (store queue_session) ''election/svc/3'' \<longrightarrow>
      (current_create_revision (store queue_session) ''election/svc/3'' =
         store_revision (store queue_session) \<longrightarrow>
       fst (proclaim ''v'' (fst (snd ?d)) later_session) = Resolved ())"
    by blast
  then have e: "fst (proclaim ''v'' (fst (snd ?d)) later_session) = Resolved ()"
    unfolding r k3 lk3 by simp
  from a moved lk b lk3 e show ?thesis by (intro conjI) simp_all
qed

end
